theory Spec2Isabelle
  imports Main "HOL-Library.Word"
begin

unbundle bit_operations_syntax

section \<open>Data model\<close>

text \<open>
  The module \<^verbatim>\<open>spikingjelly/datasets/__init__.py\<close> works on numpy arrays. An array is
  modelled by its shape and its elements in row-major order; an event record (the dict with
  keys \<^verbatim>\<open>'t'\<close>, \<^verbatim>\<open>'x'\<close>, \<^verbatim>\<open>'y'\<close>, \<^verbatim>\<open>'p'\<close>) by a record of four one-dimensional arrays.
  Every exception the code can raise is a value of \<open>error\<close>. Frame cells are float64 in
  the source; they only ever hold event counts, which are modelled as \<open>int\<close>. Timestamps and
  coordinates are Python/numpy integers, modelled as unbounded \<open>int\<close>, except in the binary
  decoder, whose arithmetic is on \<^verbatim>\<open>uint32\<close>.
\<close>

type_synonym u8 = "8 word"
type_synonym u32 = "32 word"

datatype error = IndexError | ValueError | ZeroDivisionError | NotImplementedError

record 'a events =
  ev_t :: "'a list"
  ev_x :: "'a list"
  ev_y :: "'a list"
  ev_p :: "'a list"

record 'a ndarray =
  nd_shape :: "nat list"
  nd_data :: "'a list"

text \<open>\<^verbatim>\<open>np.zeros(shape)\<close>, \<^verbatim>\<open>np.expand_dims(a, 0)\<close> and \<^verbatim>\<open>np.concatenate(arrays, 0)\<close>;
  the last one raises on an empty sequence, on zero-dimensional arrays and when the
  trailing dimensions differ.\<close>

definition zeros :: "nat list \<Rightarrow> int ndarray" where
  "zeros shp = \<lparr>nd_shape = shp, nd_data = replicate (prod_list shp) 0\<rparr>"

definition expand_dims0 :: "'a ndarray \<Rightarrow> 'a ndarray" where
  "expand_dims0 a = a\<lparr>nd_shape := 1 # nd_shape a\<rparr>"

definition concatenate :: "'a ndarray list \<Rightarrow> error + 'a ndarray" where
  "concatenate arrs =
     (case arrs of
        [] \<Rightarrow> Inl ValueError
      | a # rest \<Rightarrow>
          if list_ex (\<lambda>b. nd_shape b = [] \<or> tl (nd_shape b) \<noteq> tl (nd_shape a)) arrs
          then Inl ValueError
          else Inr \<lparr>nd_shape = sum_list (map (\<lambda>b. hd (nd_shape b)) arrs) # tl (nd_shape a),
                    nd_data = concat (map nd_data arrs)\<rparr>)"

text \<open>\<^verbatim>\<open>a[i]\<close> on the first axis, and \<^verbatim>\<open>a[c, y, x]\<close> of a three-dimensional array.\<close>

definition nd_index0 :: "'a ndarray \<Rightarrow> nat \<Rightarrow> 'a ndarray" where
  "nd_index0 a i =
     (let sz = prod_list (tl (nd_shape a))
      in \<lparr>nd_shape = tl (nd_shape a), nd_data = take sz (drop (i * sz) (nd_data a))\<rparr>)"

definition nd_get3 :: "'a ndarray \<Rightarrow> nat \<Rightarrow> nat \<Rightarrow> nat \<Rightarrow> 'a" where
  "nd_get3 a c y0 x0 = nd_data a ! ((c * (nd_shape a ! 1) + y0) * (nd_shape a ! 2) + x0)"

text \<open>A Python slice \<^verbatim>\<open>xs[j_l:j_r]\<close>: a negative bound counts from the end, and both
  bounds are clamped to the length.\<close>

definition py_slice :: "'a list \<Rightarrow> int \<Rightarrow> int \<Rightarrow> 'a list" where
  "py_slice xs j_l j_r =
     (let n = int (length xs);
          clamp = (\<lambda>j. if j < 0 then max 0 (j + n) else min j n);
          lo = clamp j_l;
          hi = clamp j_r
      in take (nat (hi - lo)) (drop (nat lo) xs))"

section \<open>Fixed-width binary decoder: \<^verbatim>\<open>load_ATIS_bin\<close>\<close>

text \<open>\<^verbatim>\<open>raw_data[k::5]\<close> is \<open>slice_step5 k raw_data\<close>. An elementwise operation on two
  one-dimensional arrays follows numpy's broadcasting: equal lengths, or one side of
  length one; anything else raises.\<close>

fun stride5 :: "'a list \<Rightarrow> 'a list" where
  "stride5 [] = []"
| "stride5 (v # vs) = v # stride5 (drop 4 vs)"

definition slice_step5 :: "nat \<Rightarrow> 'a list \<Rightarrow> 'a list" where
  "slice_step5 k xs = stride5 (drop k xs)"

definition broadcast2 :: "('a \<Rightarrow> 'b \<Rightarrow> 'c) \<Rightarrow> 'a list \<Rightarrow> 'b list \<Rightarrow> error + 'c list" where
  "broadcast2 f a b =
     (if length a = length b then Inr (map2 f a b)
      else if length a = 1 then Inr (map (f (hd a)) b)
      else if length b = 1 then Inr (map (\<lambda>v. f v (hd b)) a)
      else Inl ValueError)"

definition load_ATIS_bin :: "u8 list \<Rightarrow> error + u32 events" where
  "load_ATIS_bin file_bytes =
     (let raw_data = map ucast file_bytes :: u32 list;
          x = slice_step5 0 raw_data;
          y = slice_step5 1 raw_data;
          rd_2__5 = slice_step5 2 raw_data;
          p = map (\<lambda>v. drop_bit 7 (v AND 128)) rd_2__5
      in case broadcast2 (OR) (map (\<lambda>v. push_bit 16 (v AND 127)) rd_2__5)
                (map (push_bit 8) (slice_step5 3 raw_data)) of
           Inl e \<Rightarrow> Inl e
         | Inr hi \<Rightarrow>
             (case broadcast2 (OR) hi (slice_step5 4 raw_data) of
                Inl e \<Rightarrow> Inl e
              | Inr t \<Rightarrow> Inr \<lparr>ev_t = t, ev_x = x, ev_y = y, ev_p = p\<rparr>))"

text \<open>The bytes of one 40-bit event, in file order.\<close>

definition record_bytes :: "u8 \<times> u8 \<times> u8 \<times> u8 \<times> u8 \<Rightarrow> u8 list" where
  "record_bytes r = (case r of (b0, b1, b2, b3, b4) \<Rightarrow> [b0, b1, b2, b3, b4])"

section \<open>Frame padder: \<^verbatim>\<open>PadFrames.__call__\<close>\<close>

text \<open>\<^verbatim>\<open>frames.shape[k]\<close> raises IndexError when the array has too few dimensions.\<close>

definition PadFrames_call :: "int \<Rightarrow> int ndarray \<Rightarrow> error + int ndarray" where
  "PadFrames_call max_frames_number frames =
     (case nd_shape frames of
        [] \<Rightarrow> Inl IndexError
      | N # rest \<Rightarrow>
          if int N < max_frames_number then
            (if length rest < 3 then Inl IndexError
             else let padding_frames =
                        zeros [nat (max_frames_number - int N), rest ! 0, rest ! 1, rest ! 2]
                  in concatenate [frames, padding_frames])
          else Inr frames)"

section \<open>Frame integrator: \<^verbatim>\<open>integrate_events_segment_to_frame\<close>\<close>

text \<open>\<^verbatim>\<open>a[mask]\<close> with a boolean mask raises when the lengths differ. \<^verbatim>\<open>np.bincount\<close>
  raises on a negative entry and returns one count per value from 0 to the maximum
  (no count at all for an empty input). \<^verbatim>\<open>row[np.arange(size)] += counts\<close> raises when
  \<open>size\<close> exceeds the row.\<close>

definition mask_select :: "'a list \<Rightarrow> bool list \<Rightarrow> error + 'a list" where
  "mask_select a m =
     (if length a \<noteq> length m then Inl IndexError
      else Inr (map fst (filter snd (zip a m))))"

definition bincount :: "int list \<Rightarrow> error + int list" where
  "bincount position =
     (if list_ex (\<lambda>v. v < 0) position then Inl ValueError
      else Inr (map (\<lambda>k. int (count_list position (int k)))
                  [0..<foldr (\<lambda>v m. max (nat v + 1) m) position 0]))"

definition add_at_arange :: "int list \<Rightarrow> int list \<Rightarrow> error + int list" where
  "add_at_arange row counts =
     (if length row < length counts then Inl IndexError
      else Inr (map2 (+) (take (length counts) row) counts @ drop (length counts) row))"

text \<open>One pass of the loop \<^verbatim>\<open>for c in range(2)\<close>: the new content of \<^verbatim>\<open>frame[c]\<close>.\<close>

definition integrate_channel ::
  "nat \<Rightarrow> int list \<Rightarrow> int list \<Rightarrow> bool list \<Rightarrow> int list \<Rightarrow> error + int list" where
  "integrate_channel W x y mask_c row =
     (case mask_select y mask_c of
        Inl e \<Rightarrow> Inl e
      | Inr ym \<Rightarrow>
          (case mask_select x mask_c of
             Inl e \<Rightarrow> Inl e
           | Inr xm \<Rightarrow>
               (let position = map2 (\<lambda>yv xv. yv * int W + xv) ym xm
                in case bincount position of
                     Inl e \<Rightarrow> Inl e
                   | Inr events_number_per_pos \<Rightarrow> add_at_arange row events_number_per_pos)))"

definition integrate_events_segment_to_frame ::
  "int events \<Rightarrow> nat \<Rightarrow> nat \<Rightarrow> int \<Rightarrow> int \<Rightarrow> error + int ndarray" where
  "integrate_events_segment_to_frame events H W j_l j_r =
     (let x = py_slice (ev_x events) j_l j_r;
          y = py_slice (ev_y events) j_l j_r;
          p = py_slice (ev_p events) j_l j_r;
          mask0 = map (\<lambda>v. v = 0) p;
          mask1 = map Not mask0
      in case integrate_channel W x y mask0 (replicate (H * W) 0) of
           Inl e \<Rightarrow> Inl e
         | Inr row0 \<Rightarrow>
             (case integrate_channel W x y mask1 (replicate (H * W) 0) of
                Inl e \<Rightarrow> Inl e
              | Inr row1 \<Rightarrow> Inr \<lparr>nd_shape = [2, H, W], nd_data = row0 @ row1\<rparr>))"

text \<open>The call with the default arguments \<^verbatim>\<open>j_l=0, j_r=-1\<close>.\<close>

definition integrate_events_segment_to_frame_default ::
  "int events \<Rightarrow> nat \<Rightarrow> nat \<Rightarrow> error + int ndarray" where
  "integrate_events_segment_to_frame_default events H W =
     integrate_events_segment_to_frame events H W 0 (- 1)"

text \<open>The data model's invariant on an event record for a sensor of \<open>H\<close> by \<open>W\<close> pixels.\<close>

definition valid_events :: "int events \<Rightarrow> nat \<Rightarrow> nat \<Rightarrow> bool" where
  "valid_events events H W \<longleftrightarrow>
     length (ev_x events) = length (ev_t events) \<and>
     length (ev_y events) = length (ev_t events) \<and>
     length (ev_p events) = length (ev_t events) \<and>
     list_all (\<lambda>v. 0 \<le> v \<and> v < int W) (ev_x events) \<and>
     list_all (\<lambda>v. 0 \<le> v \<and> v < int H) (ev_y events) \<and>
     list_all (\<lambda>v. v = 0 \<or> v = 1) (ev_p events)"

section \<open>Segmentation planner: \<^verbatim>\<open>cal_fixed_frames_number_segment_index\<close>\<close>

text \<open>\<^verbatim>\<open>a[-1] = v\<close> raises on an empty array.\<close>

definition set_last :: "'a list \<Rightarrow> 'a \<Rightarrow> error + 'a list" where
  "set_last a v = (if a = [] then Inl IndexError else Inr (a[length a - 1 := v]))"

text \<open>The two \<^verbatim>\<open>for i in range(frames_num)\<close> loops, over the remaining values of \<open>i\<close>.\<close>

fun number_loop :: "int \<Rightarrow> nat list \<Rightarrow> int list \<times> int list \<Rightarrow> int list \<times> int list" where
  "number_loop di [] (j_l, j_r) = (j_l, j_r)"
| "number_loop di (i # is) (j_l, j_r) =
     (let j_l' = j_l[i := int i * di];
          j_r' = j_r[i := j_l' ! i + di]
      in number_loop di is (j_l', j_r'))"

fun time_loop ::
  "int list \<Rightarrow> int \<Rightarrow> nat list \<Rightarrow> int list \<times> int list \<Rightarrow> error + (int list \<times> int list)" where
  "time_loop events_t dt [] (j_l, j_r) = Inr (j_l, j_r)"
| "time_loop events_t dt (i # is) (j_l, j_r) =
     (let t_l = dt * int i + events_t ! 0;
          t_r = t_l + dt;
          idx_masked = filter (\<lambda>k. t_l \<le> events_t ! k \<and> events_t ! k < t_r)
                         [0..<length events_t]
      in if idx_masked = [] then Inl IndexError
         else time_loop events_t dt is
                (j_l[i := int (hd idx_masked)], j_r[i := int (last idx_masked) + 1]))"

text \<open>A negative \<open>frames_num\<close> fails in \<^verbatim>\<open>np.zeros\<close>. Python's \<^verbatim>\<open>N // 0\<close> raises; numpy's
  integer floor division by zero yields 0, as \<open>div\<close> does.\<close>

definition cal_fixed_frames_number_segment_index ::
  "int list \<Rightarrow> string \<Rightarrow> int \<Rightarrow> error + (int list \<times> int list)" where
  "cal_fixed_frames_number_segment_index events_t split_by frames_num =
     (if frames_num < 0 then Inl ValueError
      else
        let j_l = replicate (nat frames_num) 0;
            j_r = replicate (nat frames_num) 0;
            N = int (length events_t)
        in if split_by = ''number'' then
             (if frames_num = 0 then Inl ZeroDivisionError
              else
                let di = N div frames_num;
                    (j_l, j_r) = number_loop di [0..<nat frames_num] (j_l, j_r)
                in case set_last j_r N of
                     Inl e \<Rightarrow> Inl e
                   | Inr j_r \<Rightarrow> Inr (j_l, j_r))
           else if split_by = ''time'' then
             (if events_t = [] then Inl IndexError
              else
                let dt = (last events_t - events_t ! 0) div frames_num
                in case time_loop events_t dt [0..<nat frames_num] (j_l, j_r) of
                     Inl e \<Rightarrow> Inl e
                   | Inr (j_l, j_r) \<Rightarrow>
                       (case set_last j_r N of
                          Inl e \<Rightarrow> Inl e
                        | Inr j_r \<Rightarrow> Inr (j_l, j_r)))
           else Inl NotImplementedError)"

text \<open>The precondition of the time split: window \<open>i\<close> holds at least one event.\<close>

definition window_nonempty :: "int list \<Rightarrow> int \<Rightarrow> nat \<Rightarrow> bool" where
  "window_nonempty events_t frames_num i \<longleftrightarrow>
     (let dt = (last events_t - events_t ! 0) div frames_num;
          t_l = dt * int i + events_t ! 0
      in list_ex (\<lambda>v. t_l \<le> v \<and> v < t_l + dt) events_t)"

section \<open>Duration binner: \<^verbatim>\<open>integrate_events_by_fixed_duration\<close>\<close>

text \<open>The inner \<^verbatim>\<open>while True\<close> loop: it returns the final value of \<open>right\<close>. The test
  \<^verbatim>\<open>right == N\<close> comes first, so \<^verbatim>\<open>t[right]\<close> is only read in range when \<open>right \<le> N\<close>.\<close>

function advance_right :: "int list \<Rightarrow> int \<Rightarrow> int \<Rightarrow> nat \<Rightarrow> error + nat" where
  "advance_right t t_l duration right =
     (if right = length t then Inr right
      else if length t < right then Inl IndexError
      else if t ! right - t_l > duration then Inr right
      else advance_right t t_l duration (right + 1))"
  by pat_completeness auto
termination
  by (relation "measure (\<lambda>(t, t_l, duration, right). length t - right)") auto

declare advance_right.simps [simp del]

text \<open>The outer \<^verbatim>\<open>while True\<close> loop may run forever (it does for a negative duration), so
  it is a partial function: \<open>None\<close> is non-termination. The parameter \<open>seg\<close> is what is
  done with each index range \<open>[left, right)\<close>; the source integrates it into a frame.\<close>

partial_function (option) fixed_duration_loop ::
  "(nat \<Rightarrow> nat \<Rightarrow> error + 'a) \<Rightarrow> int list \<Rightarrow> int \<Rightarrow> nat \<Rightarrow> nat \<Rightarrow> 'a list
     \<Rightarrow> (error + 'a list) option" where
  "fixed_duration_loop seg t duration left right frames =
     (if length t \<le> left then Some (Inl IndexError)
      else
        case advance_right t (t ! left) duration right of
          Inl e \<Rightarrow> Some (Inl e)
        | Inr right' \<Rightarrow>
            (case seg left right' of
               Inl e \<Rightarrow> Some (Inl e)
             | Inr frame \<Rightarrow>
                 if right' = length t then Some (Inr (frames @ [frame]))
                 else fixed_duration_loop seg t duration right' right' (frames @ [frame])))"

declare fixed_duration_loop.simps [code]

definition integrate_events_by_fixed_duration ::
  "int events \<Rightarrow> int \<Rightarrow> nat \<Rightarrow> nat \<Rightarrow> (error + int ndarray) option" where
  "integrate_events_by_fixed_duration events duration H W =
     (case fixed_duration_loop
             (\<lambda>left right.
                case integrate_events_segment_to_frame events H W (int left) (int right) of
                  Inl e \<Rightarrow> Inl e
                | Inr frame \<Rightarrow> Inr (expand_dims0 frame))
             (ev_t events) duration 0 0 [] of
        None \<Rightarrow> None
      | Some (Inl e) \<Rightarrow> Some (Inl e)
      | Some (Inr frames) \<Rightarrow> Some (concatenate frames))"

text \<open>The same loop, recording the index ranges it integrates instead of the frames.\<close>

definition fixed_duration_segments :: "int list \<Rightarrow> int \<Rightarrow> (error + (nat \<times> nat) list) option" where
  "fixed_duration_segments t duration =
     fixed_duration_loop (\<lambda>left right. Inr (left, right)) t duration 0 0 []"

section \<open>Example inputs\<close>

definition two_frames :: "int ndarray" where
  "two_frames = \<lparr>nd_shape = [2, 2, 1, 2], nd_data = [1, 0, 0, 2, 0, 3, 1, 0]\<rparr>"

definition four_events :: "int events" where
  "four_events = \<lparr>ev_t = [0, 1, 2, 3], ev_x = [1, 2, 1, 1], ev_y = [1, 1, 1, 2],
                   ev_p = [0, 1, 0, 1]\<rparr>"

definition empty_events :: "int events" where
  "empty_events = \<lparr>ev_t = [], ev_x = [], ev_y = [], ev_p = []\<rparr>"

section \<open>The decoder reads each 5-byte record as documented\<close>

lemma slice_step5_records:
  "slice_step5 0 (map f (concat (map record_bytes recs))) = map (\<lambda>(b0, b1, b2, b3, b4). f b0) recs"
  "slice_step5 (Suc 0) (map f (concat (map record_bytes recs))) = map (\<lambda>(b0, b1, b2, b3, b4). f b1) recs"
  "slice_step5 2 (map f (concat (map record_bytes recs))) = map (\<lambda>(b0, b1, b2, b3, b4). f b2) recs"
  "slice_step5 3 (map f (concat (map record_bytes recs))) = map (\<lambda>(b0, b1, b2, b3, b4). f b3) recs"
  "slice_step5 4 (map f (concat (map record_bytes recs))) = map (\<lambda>(b0, b1, b2, b3, b4). f b4) recs"
  unfolding slice_step5_def
  by (induction recs; auto simp: record_bytes_def)+

lemma polarity_bit: "drop_bit 7 ((ucast (b :: u8) :: u32) AND 128) = drop_bit 7 (ucast b) AND 1"
  by (rule bit_word_eqI) (auto simp: bit_simps)

lemma broadcast2_same_length:
  "length a = length b \<Longrightarrow> broadcast2 f a b = Inr (map2 f a b)"
  by (simp add: broadcast2_def)

lemma map2_over_records:
  "map (\<lambda>q. f (fst q) (snd q)) (zip (map g recs) (map h recs)) = map (\<lambda>r. f (g r) (h r)) recs"
  by (induction recs) auto

text \<open>
  Claim C7. A file that consists of whole 5-byte records \<open>(b0, b1, b2, b3, b4)\<close> decodes,
  record by record and in file order, to \<open>x = b0\<close>, \<open>y = b1\<close>, \<open>p = (b2 >> 7) & 1\<close> and
  \<open>t = ((b2 & 0x7F) << 16) | (b3 << 8) | b4\<close>, all as unsigned 32-bit values; the record
  \<open>[10, 20, 0b10000101, 0x00, 0x7F]\<close> decodes to \<open>x = 10\<close>, \<open>y = 20\<close>, \<open>p = 1\<close>,
  \<open>t = 327807\<close>.
\<close>

theorem load_ATIS_bin_decodes_records:
  "load_ATIS_bin (concat (map record_bytes recs)) =
     Inr \<lparr>ev_t = map (\<lambda>(b0, b1, b2, b3, b4).
                        (push_bit 16 (ucast b2 AND 0x7F) OR push_bit 8 (ucast b3)) OR ucast b4) recs,
          ev_x = map (\<lambda>(b0, b1, b2, b3, b4). ucast b0) recs,
          ev_y = map (\<lambda>(b0, b1, b2, b3, b4). ucast b1) recs,
          ev_p = map (\<lambda>(b0, b1, b2, b3, b4). drop_bit 7 (ucast b2) AND 1) recs\<rparr>
   \<and> load_ATIS_bin (record_bytes (10, 20, 0x85, 0x00, 0x7F)) =
     Inr \<lparr>ev_t = [327807], ev_x = [10], ev_y = [20], ev_p = [1]\<rparr>"
proof
  show "load_ATIS_bin (concat (map record_bytes recs)) =
     Inr \<lparr>ev_t = map (\<lambda>(b0, b1, b2, b3, b4).
                        (push_bit 16 (ucast b2 AND 0x7F) OR push_bit 8 (ucast b3)) OR ucast b4) recs,
          ev_x = map (\<lambda>(b0, b1, b2, b3, b4). ucast b0) recs,
          ev_y = map (\<lambda>(b0, b1, b2, b3, b4). ucast b1) recs,
          ev_p = map (\<lambda>(b0, b1, b2, b3, b4). drop_bit 7 (ucast b2) AND 1) recs\<rparr>"
    unfolding load_ATIS_bin_def Let_def
    by (simp add: slice_step5_records broadcast2_same_length map2_over_records
        polarity_bit case_prod_unfold o_def)
  show "load_ATIS_bin (record_bytes (10, 20, 0x85, 0x00, 0x7F)) =
     Inr \<lparr>ev_t = [327807], ev_x = [10], ev_y = [20], ev_p = [1]\<rparr>"
    by (simp add: load_ATIS_bin_def record_bytes_def slice_step5_def broadcast2_def)
qed

section \<open>The padder appends zero frames and never truncates\<close>

lemma concatenate_pair:
  "nd_shape a = n # shp \<Longrightarrow> nd_shape b = k # shp \<Longrightarrow>
   concatenate [a, b] = Inr \<lparr>nd_shape = (n + k) # shp, nd_data = nd_data a @ nd_data b\<rparr>"
  by (simp add: concatenate_def)

lemma take_drop_block_left:
  fixes xs :: "'a list"
  assumes "length xs = n * sz" and "i < n"
  shows "take sz (drop (i * sz) (xs @ ys)) = take sz (drop (i * sz) xs)"
proof -
  have "Suc i * sz \<le> n * sz"
    using assms(2) by (intro mult_le_mono1) simp
  then have "i * sz + sz \<le> length xs"
    using assms(1) by simp
  then show ?thesis by simp
qed

lemma take_drop_block_right:
  fixes xs :: "'a list"
  assumes "length xs = n * sz" and "n \<le> i" and "i < n + k"
  shows "take sz (drop (i * sz) (xs @ replicate (k * sz) z)) = replicate sz z"
proof -
  have le: "n * sz \<le> i * sz"
    using assms(2) by (intro mult_le_mono1)
  have "Suc (i - n) * sz \<le> k * sz"
    using assms(2,3) by (intro mult_le_mono1) simp
  then have room: "sz \<le> k * sz - (i - n) * sz"
    by simp
  have "drop (i * sz) (xs @ replicate (k * sz) z) = replicate (k * sz - (i - n) * sz) z"
    using assms(1) le by (simp add: diff_mult_distrib)
  then show ?thesis using room by (simp add: min_def)
qed

text \<open>
  Claim C8. For a frame sequence of shape \<open>[N, C, H, W]\<close> and a target length \<open>L\<close>:
  when \<open>N \<ge> L\<close> the padder returns its input unchanged; when \<open>N < L\<close> it returns a
  sequence of shape \<open>[L, C, H, W]\<close> whose first \<open>N\<close> frames are those of the input and
  whose last \<open>L - N\<close> frames are all-zero frames of shape \<open>[C, H, W]\<close>. In neither case
  is a frame of the input dropped.
\<close>

theorem PadFrames_call_pads:
  assumes shp: "nd_shape frames = [N, C, H, W]"
      and len: "length (nd_data frames) = N * C * H * W"
  shows "(L \<le> int N \<longrightarrow> PadFrames_call L frames = Inr frames) \<and>
         (int N < L \<longrightarrow>
            (\<exists>r. PadFrames_call L frames = Inr r \<and>
                 nd_shape r = [nat L, C, H, W] \<and>
                 length (nd_data r) = nat L * C * H * W \<and>
                 (\<forall>i<N. nd_index0 r i = nd_index0 frames i) \<and>
                 (\<forall>i. N \<le> i \<and> i < nat L \<longrightarrow> nd_index0 r i = zeros [C, H, W])))"
proof (intro conjI impI)
  assume "L \<le> int N"
  then show "PadFrames_call L frames = Inr frames"
    by (simp add: PadFrames_call_def shp)
next
  assume less: "int N < L"
  define k where "k = nat (L - int N)"
  define sz where "sz = C * (H * W)"
  define r where "r = \<lparr>nd_shape = [N + k, C, H, W],
                        nd_data = nd_data frames @ replicate (k * sz) (0::int)\<rparr>"
  have total: "N + k = nat L"
    using less by (simp add: k_def)
  have len': "length (nd_data frames) = N * sz"
    by (simp add: len sz_def mult.assoc)
  have call: "PadFrames_call L frames = Inr r"
    using less concatenate_pair [of frames N "[C, H, W]" "zeros [k, C, H, W]" k]
    by (simp add: PadFrames_call_def shp zeros_def k_def r_def sz_def)
  have old: "nd_index0 r i = nd_index0 frames i" if "i < N" for i
  proof -
    have "take sz (drop (i * sz) (nd_data r)) = take sz (drop (i * sz) (nd_data frames))"
      unfolding r_def ndarray.simps by (rule take_drop_block_left [OF len' that])
    then show ?thesis
      by (simp add: nd_index0_def r_def shp sz_def del: take_append drop_append)
  qed
  have new: "nd_index0 r i = zeros [C, H, W]" if "N \<le> i" "i < nat L" for i
  proof -
    have "i < N + k" using that(2) total by simp
    then have "take sz (drop (i * sz) (nd_data r)) = replicate sz 0"
      unfolding r_def ndarray.simps by (rule take_drop_block_right [OF len' that(1)])
    then show ?thesis
      by (simp add: nd_index0_def r_def zeros_def sz_def del: take_append drop_append)
  qed
  have "length (nd_data r) = nat L * C * H * W"
    using total [symmetric] by (simp add: r_def len' sz_def add_mult_distrib mult.assoc)
  moreover have "nd_shape r = [nat L, C, H, W]"
    using total by (simp add: r_def)
  ultimately
  show "\<exists>r. PadFrames_call L frames = Inr r \<and>
                 nd_shape r = [nat L, C, H, W] \<and>
                 length (nd_data r) = nat L * C * H * W \<and>
                 (\<forall>i<N. nd_index0 r i = nd_index0 frames i) \<and>
                 (\<forall>i. N \<le> i \<and> i < nat L \<longrightarrow> nd_index0 r i = zeros [C, H, W])"
    using call old new by (intro exI [of _ r]) simp
qed

theorem PadFrames_call_pads_witness:
  "PadFrames_call 2 two_frames = Inr two_frames \<and>
   (\<exists>r. PadFrames_call 4 two_frames = Inr r \<and> nd_shape r = [4, 2, 1, 2] \<and>
        nd_index0 r 1 = nd_index0 two_frames 1 \<and> nd_index0 r 3 = zeros [2, 1, 2])"
proof -
  have shp: "nd_shape two_frames = [2, 2, 1, 2]"
    and len: "length (nd_data two_frames) = 2 * 2 * 1 * 2"
    by (simp_all add: two_frames_def)
  from PadFrames_call_pads [OF shp len, of 2] PadFrames_call_pads [OF shp len, of 4]
  show ?thesis by auto
qed

section \<open>Splitting by event number\<close>

lemma number_loop_nth:
  assumes "length j_l = n" and "length j_r = n" and "\<forall>i\<in>set is. i < n"
  shows "\<exists>j_l' j_r'. number_loop di is (j_l, j_r) = (j_l', j_r') \<and>
           length j_l' = n \<and> length j_r' = n \<and>
           (\<forall>i<n. j_l' ! i = (if i \<in> set is then int i * di else j_l ! i)) \<and>
           (\<forall>i<n. j_r' ! i = (if i \<in> set is then int i * di + di else j_r ! i))"
  using assms
proof (induction "is" arbitrary: j_l j_r)
  case Nil
  then show ?case by simp
next
  case (Cons i "is")
  let ?l = "j_l[i := int i * di]"
  let ?r = "j_r[i := ?l ! i + di]"
  have i: "i < n" using Cons.prems(3) by simp
  have "length ?l = n" "length ?r = n" "\<forall>i\<in>set is. i < n"
    using Cons.prems by simp_all
  from Cons.IH [OF this] obtain j_l' j_r' where
    loop: "number_loop di is (?l, ?r) = (j_l', j_r')"
    and len: "length j_l' = n" "length j_r' = n"
    and l: "\<forall>k<n. j_l' ! k = (if k \<in> set is then int k * di else ?l ! k)"
    and r: "\<forall>k<n. j_r' ! k = (if k \<in> set is then int k * di + di else ?r ! k)"
    by blast
  have "number_loop di (i # is) (j_l, j_r) = (j_l', j_r')"
    using loop by (simp add: Let_def)
  moreover have "\<forall>k<n. j_l' ! k = (if k \<in> set (i # is) then int k * di else j_l ! k)"
    using l i Cons.prems(1) by (auto simp: nth_list_update)
  moreover have "\<forall>k<n. j_r' ! k = (if k \<in> set (i # is) then int k * di + di else j_r ! k)"
    using r i Cons.prems(1,2) by (auto simp: nth_list_update)
  ultimately show ?case using len by blast
qed

text \<open>
  Claim C3. For a timestamp array of length \<open>N\<close> and \<open>frames_num = k \<ge> 1\<close>, the split by
  number returns \<open>k\<close> ranges; range \<open>i\<close> starts at \<open>i * (N // k)\<close>; for \<open>i < k - 1\<close> it ends at
  \<open>(i + 1) * (N // k)\<close> and so holds exactly \<open>N // k\<close> events; the last range ends at \<open>N\<close>
  and holds \<open>N - (k - 1) * (N // k)\<close> events.
\<close>

theorem number_split_exact:
  assumes "1 \<le> k"
  shows "\<exists>j_l j_r.
           cal_fixed_frames_number_segment_index events_t ''number'' k = Inr (j_l, j_r) \<and>
           length j_l = nat k \<and> length j_r = nat k \<and>
           (\<forall>i. i + 1 < nat k \<longrightarrow>
                j_l ! i = int i * (int (length events_t) div k) \<and>
                j_r ! i = (int i + 1) * (int (length events_t) div k) \<and>
                j_r ! i - j_l ! i = int (length events_t) div k) \<and>
           j_l ! (nat k - 1) = (k - 1) * (int (length events_t) div k) \<and>
           j_r ! (nat k - 1) = int (length events_t) \<and>
           j_r ! (nat k - 1) - j_l ! (nat k - 1) =
             int (length events_t) - (k - 1) * (int (length events_t) div k)"
proof -
  define n where "n = nat k"
  define di where "di = int (length events_t) div k"
  have n: "0 < n" "int n = k" using assms by (simp_all add: n_def)
  from number_loop_nth [of "replicate n 0" n "replicate n 0" "[0..<n]" di]
  obtain j_l j_r where
    loop: "number_loop di [0..<n] (replicate n 0, replicate n 0) = (j_l, j_r)"
    and len: "length j_l = n" "length j_r = n"
    and l: "\<forall>i<n. j_l ! i = int i * di"
    and r: "\<forall>i<n. j_r ! i = int i * di + di"
    by auto
  let ?j_r = "j_r[n - 1 := int (length events_t)]"
  have call: "cal_fixed_frames_number_segment_index events_t ''number'' k = Inr (j_l, ?j_r)"
    using assms loop len n
    by (auto simp: cal_fixed_frames_number_segment_index_def set_last_def Let_def
        n_def [symmetric] di_def [symmetric])
  have first: "j_l ! i = int i * di \<and> ?j_r ! i = (int i + 1) * di \<and> ?j_r ! i - j_l ! i = di"
    if "i + 1 < n" for i
    using that l r len by (simp add: algebra_simps)
  have "int (n - 1) = k - 1" using n by simp
  then have last: "j_l ! (n - 1) = (k - 1) * di" "?j_r ! (n - 1) = int (length events_t)"
    using l len n by simp_all
  have "cal_fixed_frames_number_segment_index events_t ''number'' k = Inr (j_l, ?j_r) \<and>
        length j_l = n \<and> length ?j_r = n \<and>
        (\<forall>i. i + 1 < n \<longrightarrow>
             j_l ! i = int i * di \<and> ?j_r ! i = (int i + 1) * di \<and> ?j_r ! i - j_l ! i = di) \<and>
        j_l ! (n - 1) = (k - 1) * di \<and>
        ?j_r ! (n - 1) = int (length events_t) \<and>
        ?j_r ! (n - 1) - j_l ! (n - 1) = int (length events_t) - (k - 1) * di"
    using call len first last by (simp add: algebra_simps)
  then show ?thesis
    unfolding n_def [symmetric] di_def [symmetric] by blast
qed

theorem number_split_exact_witness:
  "\<exists>j_l j_r.
     cal_fixed_frames_number_segment_index [0, 1, 2, 3, 4, 5, 6, 7, 8, 9, 10] ''number'' 3
       = Inr (j_l, j_r) \<and>
     j_l ! 0 = 0 \<and> j_r ! 0 = 3 \<and> j_l ! 1 = 3 \<and> j_r ! 1 = 6 \<and> j_l ! 2 = 6 \<and> j_r ! 2 = 11"
  using number_split_exact [of 3 "[0, 1, 2, 3, 4, 5, 6, 7, 8, 9, 10]"]
  by (auto simp: numeral_2_eq_2)

section \<open>The integrator counts events per cell\<close>

lemma py_slice_nat:
  "a \<le> b \<Longrightarrow> b \<le> length xs \<Longrightarrow> py_slice xs (int a) (int b) = take (b - a) (drop a xs)"
  by (simp add: py_slice_def Let_def min_def nat_diff_distrib')

lemma py_slice_nat_nth:
  "a \<le> b \<Longrightarrow> b \<le> length xs \<Longrightarrow> i < b - a \<Longrightarrow> py_slice xs (int a) (int b) ! i = xs ! (a + i)"
  by (simp add: py_slice_nat)

lemma py_slice_nat_length:
  "a \<le> b \<Longrightarrow> b \<le> length xs \<Longrightarrow> length (py_slice xs (int a) (int b)) = b - a"
  by (simp add: py_slice_nat)

lemma mask_filter_indices:
  "length a = length m \<Longrightarrow>
   map fst (filter snd (zip a m)) = map (\<lambda>i. a ! i) (filter (\<lambda>i. m ! i) [0..<length m])"
proof (induction a m rule: list_induct2)
  case Nil
  then show ?case by simp
next
  case (Cons v a b m)
  have "[0..<Suc (length m)] = 0 # map Suc [0..<length m]"
    by (simp add: upt_conv_Cons map_Suc_upt del: upt_Suc)
  then show ?case
    using Cons.IH by (simp add: filter_map o_def del: upt_Suc)
qed

lemma mask_select_indices:
  "length a = length m \<Longrightarrow>
   mask_select a m = Inr (map (\<lambda>i. a ! i) (filter (\<lambda>i. m ! i) [0..<length m]))"
  by (simp add: mask_select_def mask_filter_indices)

lemma map2_same_indices:
  "map2 f (map g is) (map h is) = map (\<lambda>i. f (g i) (h i)) is"
  by (induction "is") auto

lemma bincount_size_le:
  "\<forall>v\<in>set pos. 0 \<le> v \<and> v < int n \<Longrightarrow> foldr (\<lambda>v m. max (nat v + 1) m) pos 0 \<le> n"
  by (induction pos) auto

lemma bincount_size_gt:
  "v \<in> set pos \<Longrightarrow> 0 \<le> v \<Longrightarrow> nat v < foldr (\<lambda>v m. max (nat v + 1) m) pos 0"
  by (induction pos) auto

lemma bincount_into_zeros:
  assumes "\<forall>v\<in>set pos. 0 \<le> v \<and> v < int n"
  shows "\<exists>cnt. bincount pos = Inr cnt \<and>
           add_at_arange (replicate n 0) cnt = Inr (map (\<lambda>k. int (count_list pos (int k))) [0..<n])"
proof -
  define s where "s = foldr (\<lambda>v m. max (nat v + 1) m) pos 0"
  define cnt where "cnt = map (\<lambda>k. int (count_list pos (int k))) [0..<s]"
  have s: "s \<le> n" unfolding s_def using assms by (rule bincount_size_le)
  have no_neg: "\<not> list_ex (\<lambda>v. v < 0) pos"
    using assms by (auto simp: list_ex_iff)
  have bc: "bincount pos = Inr cnt"
    using no_neg by (simp add: bincount_def cnt_def s_def)
  have zero: "count_list pos (int k) = 0" if "s \<le> k" for k
  proof -
    have "int k \<notin> set pos"
    proof
      assume "int k \<in> set pos"
      from bincount_size_gt [OF this] have "k < s" by (simp add: s_def)
      with that show False by simp
    qed
    then show ?thesis by simp
  qed
  have "map2 (+) (take (length cnt) (replicate n 0)) cnt @ drop (length cnt) (replicate n 0)
        = map (\<lambda>k. int (count_list pos (int k))) [0..<n]"
    using s zero by (intro nth_equalityI) (auto simp: cnt_def nth_append min_def)
  then have "add_at_arange (replicate n 0) cnt = Inr (map (\<lambda>k. int (count_list pos (int k))) [0..<n])"
    using s by (simp add: add_at_arange_def cnt_def)
  with bc show ?thesis by blast
qed

lemma sum_count_cells:
  assumes "\<forall>v\<in>set pos. 0 \<le> v \<and> v < int n"
  shows "sum_list (map (\<lambda>k. int (count_list pos (int k))) [0..<n]) = int (length pos)"
proof -
  have sub: "set pos \<subseteq> int ` {0..<n}"
  proof
    fix v assume "v \<in> set pos"
    with assms have "0 \<le> v" "v < int n" by auto
    then have "nat v \<in> {0..<n}" "v = int (nat v)" by auto
    then show "v \<in> int ` {0..<n}" by blast
  qed
  have "sum_list (map (\<lambda>k. int (count_list pos (int k))) [0..<n])
        = (\<Sum>k = 0..<n. int (count_list pos (int k)))"
    by (simp add: interv_sum_list_conv_sum_set_nat)
  also have "\<dots> = int (\<Sum>k = 0..<n. count_list pos (int k))"
    by simp
  also have "(\<Sum>k = 0..<n. count_list pos (int k)) = sum (count_list pos) (int ` {0..<n})"
    by (simp add: sum.reindex o_def)
  also have "\<dots> = length pos"
    using sub by (intro sum_count_set) simp_all
  finally show ?thesis .
qed

lemma count_list_map_filter:
  "count_list (map f is) v = length (filter (\<lambda>i. f i = v) is)"
  by (induction "is") auto

lemma position_in_frame:
  fixes xv yv :: int
  assumes "0 \<le> xv" "xv < int W" "0 \<le> yv" "yv < int H"
  shows "0 \<le> yv * int W + xv \<and> yv * int W + xv < int (H * W)"
proof -
  have "(yv + 1) * int W \<le> int H * int W"
    using assms by (intro mult_right_mono) simp_all
  then have "yv * int W + xv < int H * int W"
    using assms(2) by (simp add: algebra_simps)
  moreover have "0 \<le> yv * int W" using assms(3) by simp
  ultimately show ?thesis using assms(1) by simp
qed

lemma position_injective:
  fixes xv yv x0 y0 :: int
  assumes "0 \<le> xv" "xv < int W" "0 \<le> x0" "x0 < int W"
  shows "yv * int W + xv = y0 * int W + x0 \<longleftrightarrow> yv = y0 \<and> xv = x0"
proof
  assume eq: "yv * int W + xv = y0 * int W + x0"
  have W: "0 < int W" using assms by linarith
  have "(yv * int W + xv) div int W = yv" "(y0 * int W + x0) div int W = y0"
    using assms by simp_all
  with eq have "yv = y0" by simp
  with eq show "yv = y0 \<and> xv = x0" by simp
qed simp

lemma integrate_channel_counts:
  assumes len: "length x = n" "length y = n" "length m = n"
      and xr: "\<forall>i<n. 0 \<le> x ! i \<and> x ! i < int W"
      and yr: "\<forall>i<n. 0 \<le> y ! i \<and> y ! i < int H"
  shows "integrate_channel W x y m (replicate (H * W) 0) =
           Inr (map (\<lambda>k. int (length (filter (\<lambda>i. m ! i \<and> y ! i * int W + x ! i = int k) [0..<n])))
                  [0..<H * W])"
proof -
  define idxs where "idxs = filter (\<lambda>i. m ! i) [0..<n]"
  define pos where "pos = map (\<lambda>i. y ! i * int W + x ! i) idxs"
  have ym: "mask_select y m = Inr (map (\<lambda>i. y ! i) idxs)"
    and xm: "mask_select x m = Inr (map (\<lambda>i. x ! i) idxs)"
    using len by (simp_all add: mask_select_indices idxs_def)
  have pos: "map2 (\<lambda>yv xv. yv * int W + xv) (map (\<lambda>i. y ! i) idxs) (map (\<lambda>i. x ! i) idxs) = pos"
    unfolding pos_def by (rule map2_same_indices)
  have "\<forall>v\<in>set pos. 0 \<le> v \<and> v < int (H * W)"
  proof
    fix v assume "v \<in> set pos"
    then obtain i where "i < n" "v = y ! i * int W + x ! i"
      by (auto simp: pos_def idxs_def)
    with xr yr show "0 \<le> v \<and> v < int (H * W)"
      using position_in_frame [of "x ! i" W "y ! i" H] by simp
  qed
  from bincount_into_zeros [OF this] obtain cnt where
    bc: "bincount pos = Inr cnt"
    and add: "add_at_arange (replicate (H * W) 0) cnt =
                Inr (map (\<lambda>k. int (count_list pos (int k))) [0..<H * W])"
    by blast
  have "count_list pos v = length (filter (\<lambda>i. m ! i \<and> y ! i * int W + x ! i = v) [0..<n])" for v
    by (simp add: pos_def idxs_def count_list_map_filter)
  with add have "add_at_arange (replicate (H * W) 0) cnt =
      Inr (map (\<lambda>k. int (length (filter (\<lambda>i. m ! i \<and> y ! i * int W + x ! i = int k) [0..<n])))
             [0..<H * W])"
    by simp
  then show ?thesis
    by (simp add: integrate_channel_def ym xm pos bc)
qed

lemma length_filter_shift:
  "a \<le> b \<Longrightarrow> length (filter (\<lambda>i. Q (a + i)) [0..<b - a]) = length (filter Q [a..<b])"
  using map_add_upt [of a "b - a"] length_filter_map [of Q "\<lambda>i. i + a" "[0..<b - a]"]
  by (simp add: o_def add.commute)

lemma integrate_frame_explicit:
  assumes valid: "valid_events events H W" and ab: "a \<le> b" and bN: "b \<le> length (ev_t events)"
  shows "integrate_events_segment_to_frame events H W (int a) (int b) =
           Inr \<lparr>nd_shape = [2, H, W],
                nd_data =
                  map (\<lambda>k. int (length (filter
                         (\<lambda>i. ev_p events ! i = 0 \<and>
                              ev_y events ! i * int W + ev_x events ! i = int k) [a..<b])))
                    [0..<H * W] @
                  map (\<lambda>k. int (length (filter
                         (\<lambda>i. ev_p events ! i \<noteq> 0 \<and>
                              ev_y events ! i * int W + ev_x events ! i = int k) [a..<b])))
                    [0..<H * W]\<rparr>"
proof -
  define x where "x = py_slice (ev_x events) (int a) (int b)"
  define y where "y = py_slice (ev_y events) (int a) (int b)"
  define p where "p = py_slice (ev_p events) (int a) (int b)"
  define n where "n = b - a"
  have lens: "b \<le> length (ev_x events)" "b \<le> length (ev_y events)" "b \<le> length (ev_p events)"
    using valid bN by (simp_all add: valid_events_def)
  have len: "length x = n" "length y = n" "length p = n"
    using ab lens by (simp_all add: x_def y_def p_def n_def py_slice_nat_length)
  have nth: "x ! i = ev_x events ! (a + i)" "y ! i = ev_y events ! (a + i)"
    "p ! i = ev_p events ! (a + i)" if "i < n" for i
    using that ab lens by (simp_all add: x_def y_def p_def n_def py_slice_nat_nth)
  have xr: "\<forall>i<n. 0 \<le> x ! i \<and> x ! i < int W"
    using valid lens(1) ab by (auto simp: nth n_def valid_events_def list_all_length)
  have yr: "\<forall>i<n. 0 \<le> y ! i \<and> y ! i < int H"
    using valid lens(2) ab by (auto simp: nth n_def valid_events_def list_all_length)
  have row0: "integrate_channel W x y (map (\<lambda>v. v = 0) p) (replicate (H * W) 0) =
      Inr (map (\<lambda>k. int (length (filter
                (\<lambda>i. ev_p events ! i = 0 \<and> ev_y events ! i * int W + ev_x events ! i = int k)
                [a..<b]))) [0..<H * W])"
  proof -
    have "length (filter (\<lambda>i. map (\<lambda>v. v = 0) p ! i \<and> y ! i * int W + x ! i = int k) [0..<n])
        = length (filter (\<lambda>i. ev_p events ! i = 0 \<and>
                    ev_y events ! i * int W + ev_x events ! i = int k) [a..<b])" for k
    proof -
      have "filter (\<lambda>i. map (\<lambda>v. v = 0) p ! i \<and> y ! i * int W + x ! i = int k) [0..<n]
          = filter (\<lambda>i. ev_p events ! (a + i) = 0 \<and>
              ev_y events ! (a + i) * int W + ev_x events ! (a + i) = int k) [0..<n]"
        using len by (intro filter_cong) (auto simp: nth)
      then show ?thesis
        using length_filter_shift [OF ab, of "\<lambda>i. ev_p events ! i = 0 \<and>
              ev_y events ! i * int W + ev_x events ! i = int k"]
        by (simp add: n_def)
    qed
    then show ?thesis
      using integrate_channel_counts [OF len(1,2) _ xr yr, of "map (\<lambda>v. v = 0) p"] len(3)
      by simp
  qed
  have row1: "integrate_channel W x y (map Not (map (\<lambda>v. v = 0) p)) (replicate (H * W) 0) =
      Inr (map (\<lambda>k. int (length (filter
                (\<lambda>i. ev_p events ! i \<noteq> 0 \<and> ev_y events ! i * int W + ev_x events ! i = int k)
                [a..<b]))) [0..<H * W])"
  proof -
    have "length (filter (\<lambda>i. map Not (map (\<lambda>v. v = 0) p) ! i \<and> y ! i * int W + x ! i = int k) [0..<n])
        = length (filter (\<lambda>i. ev_p events ! i \<noteq> 0 \<and>
                    ev_y events ! i * int W + ev_x events ! i = int k) [a..<b])" for k
    proof -
      have "filter (\<lambda>i. map Not (map (\<lambda>v. v = 0) p) ! i \<and> y ! i * int W + x ! i = int k) [0..<n]
          = filter (\<lambda>i. ev_p events ! (a + i) \<noteq> 0 \<and>
              ev_y events ! (a + i) * int W + ev_x events ! (a + i) = int k) [0..<n]"
        using len by (intro filter_cong) (auto simp: nth)
      then show ?thesis
        using length_filter_shift [OF ab, of "\<lambda>i. ev_p events ! i \<noteq> 0 \<and>
              ev_y events ! i * int W + ev_x events ! i = int k"]
        by (simp add: n_def)
    qed
    then show ?thesis
      using integrate_channel_counts [OF len(1,2) _ xr yr, of "map Not (map (\<lambda>v. v = 0) p)"] len(3)
      by simp
  qed
  show ?thesis
    unfolding integrate_events_segment_to_frame_def Let_def
      x_def [symmetric] y_def [symmetric] p_def [symmetric] row0 row1
    by simp
qed

lemma sum_filter_cells:
  assumes "\<forall>i\<in>set is. 0 \<le> f i \<and> f i < int n"
  shows "sum_list (map (\<lambda>k. int (length (filter (\<lambda>i. P i \<and> f i = int k) is))) [0..<n])
           = int (length (filter P is))"
proof -
  have "length (filter (\<lambda>i. P i \<and> f i = v) is) = count_list (map f (filter P is)) v" for v
    by (simp add: count_list_map_filter)
  moreover have "\<forall>v\<in>set (map f (filter P is)). 0 \<le> v \<and> v < int n"
    using assms by auto
  ultimately show ?thesis
    using sum_count_cells [of "map f (filter P is)" n] by simp
qed

lemma valid_events_position:
  assumes "valid_events events H W" and "i < length (ev_t events)"
  shows "0 \<le> ev_x events ! i" "ev_x events ! i < int W"
        "0 \<le> ev_y events ! i" "ev_y events ! i < int H"
        "ev_p events ! i = 0 \<or> ev_p events ! i = 1"
  using assms by (simp_all add: valid_events_def list_all_length)

lemma integrate_frame_total:
  assumes valid: "valid_events events H W" and ab: "a \<le> b" and bN: "b \<le> length (ev_t events)"
  shows "\<exists>frame. integrate_events_segment_to_frame events H W (int a) (int b) = Inr frame \<and>
           nd_shape frame = [2, H, W] \<and> length (nd_data frame) = 2 * H * W \<and>
           (\<forall>v\<in>set (nd_data frame). 0 \<le> v) \<and>
           sum_list (nd_data frame) = int (b - a)"
proof -
  let ?f = "\<lambda>i. ev_y events ! i * int W + ev_x events ! i"
  have range: "\<forall>i\<in>set [a..<b]. 0 \<le> ?f i \<and> ?f i < int (H * W)"
  proof
    fix i assume "i \<in> set [a..<b]"
    then have "i < length (ev_t events)" using bN by simp
    from valid_events_position(1-4) [OF valid this] show "0 \<le> ?f i \<and> ?f i < int (H * W)"
      by (rule position_in_frame)
  qed
  have "int (length (filter (\<lambda>i. ev_p events ! i = 0) [a..<b])) +
        int (length (filter (\<lambda>i. ev_p events ! i \<noteq> 0) [a..<b])) = int (b - a)"
    using sum_length_filter_compl [of "\<lambda>i. ev_p events ! i = 0" "[a..<b]"] by simp
  then show ?thesis
    unfolding integrate_frame_explicit [OF assms]
    by (auto simp: sum_filter_cells [OF range])
qed

lemma integrate_frame_cell:
  assumes valid: "valid_events events H W" and ab: "a \<le> b" and bN: "b \<le> length (ev_t events)"
      and c: "c < 2" and y0: "y0 < H" and x0: "x0 < W"
  shows "\<exists>frame. integrate_events_segment_to_frame events H W (int a) (int b) = Inr frame \<and>
           nd_get3 frame c y0 x0 =
             int (card {i. a \<le> i \<and> i < b \<and> ev_p events ! i = int c \<and>
                          ev_y events ! i = int y0 \<and> ev_x events ! i = int x0})"
proof -
  let ?f = "\<lambda>i. ev_y events ! i * int W + ev_x events ! i"
  define k where "k = y0 * W + x0"
  have k: "k < H * W"
    using position_in_frame [of "int x0" W "int y0" H] x0 y0
    by (simp add: k_def flip: of_nat_mult of_nat_add)
  have cell: "length (filter (\<lambda>i. Q (ev_p events ! i) \<and> ?f i = int k) [a..<b]) =
      card {i. a \<le> i \<and> i < b \<and> ev_p events ! i = int c \<and>
               ev_y events ! i = int y0 \<and> ev_x events ! i = int x0}"
    if Q: "\<And>v. v = 0 \<or> v = 1 \<Longrightarrow> Q v \<longleftrightarrow> v = int c" for Q
  proof -
    let ?R = "\<lambda>i. ev_p events ! i = int c \<and> ev_y events ! i = int y0 \<and> ev_x events ! i = int x0"
    have same: "(Q (ev_p events ! i) \<and> ?f i = int k) \<longleftrightarrow> ?R i" if "i \<in> set [a..<b]" for i
    proof -
      have "i < length (ev_t events)" using that bN by simp
      note v = valid_events_position [OF valid this]
      have "?f i = int k \<longleftrightarrow> ev_y events ! i = int y0 \<and> ev_x events ! i = int x0"
        using position_injective [of "ev_x events ! i" W "int x0" "ev_y events ! i" "int y0"]
          v(1,2) x0 by (simp add: k_def)
      then show ?thesis using Q [OF v(5)] by blast
    qed
    have "filter (\<lambda>i. Q (ev_p events ! i) \<and> ?f i = int k) [a..<b] = filter ?R [a..<b]"
      by (rule filter_cong [OF refl same])
    moreover have "{i. ?R i} \<inter> set [a..<b] = {i. a \<le> i \<and> i < b \<and> ?R i}"
      by auto
    ultimately show ?thesis
      by (simp add: distinct_length_filter)
  qed
  consider "c = 0" | "c = 1" using c by linarith
  then show ?thesis
  proof cases
    case 1
    have q: "\<And>v::int. v = 0 \<or> v = 1 \<Longrightarrow> (v = 0) \<longleftrightarrow> v = int c"
      using 1 by auto
    have "(c * H + y0) * W + x0 = k" by (simp add: 1 k_def)
    then show ?thesis
      unfolding integrate_frame_explicit [OF valid ab bN]
      using k cell [of "\<lambda>v. v = 0", OF q]
      by (simp add: nd_get3_def nth_append)
  next
    case 2
    have q: "\<And>v::int. v = 0 \<or> v = 1 \<Longrightarrow> (v \<noteq> 0) \<longleftrightarrow> v = int c"
      using 2 by auto
    have "(c * H + y0) * W + x0 = H * W + k" by (simp add: 2 k_def algebra_simps)
    then show ?thesis
      unfolding integrate_frame_explicit [OF valid ab bN]
      using k cell [of "\<lambda>v. v \<noteq> 0", OF q]
      by (simp add: nd_get3_def nth_append)
  qed
qed

lemma integrate_frame_empty:
  assumes valid: "valid_events events H W" and aN: "a \<le> length (ev_t events)"
  shows "integrate_events_segment_to_frame events H W (int a) (int a) = Inr (zeros [2, H, W])"
  unfolding integrate_frame_explicit [OF valid order_refl aN]
  by (simp add: zeros_def map_replicate_const replicate_add [symmetric])

lemma py_slice_default:
  "1 \<le> length xs \<Longrightarrow> py_slice xs 0 (- 1) = py_slice xs 0 (int (length xs - 1))"
  by (simp add: py_slice_def Let_def min_def max_def nat_diff_distrib' of_nat_diff)

text \<open>
  Claim C1. For an event record with \<open>x\<close> in \<open>[0, W)\<close>, \<open>y\<close> in \<open>[0, H)\<close> and \<open>p\<close> in
  \<open>{0, 1}\<close>, and an index range \<open>0 \<le> j_l \<le> j_r \<le> N\<close>, the integrator returns a frame of
  shape \<open>[2, H, W]\<close> whose cells are non-negative integers that sum to \<open>j_r - j_l\<close>; for
  \<open>j_l = j_r\<close> it returns the all-zero frame and raises nothing.
\<close>

theorem integrate_segment_counts_total:
  assumes "valid_events events H W" and "j_l \<le> j_r" and "j_r \<le> length (ev_t events)"
  shows "\<exists>frame. integrate_events_segment_to_frame events H W (int j_l) (int j_r) = Inr frame \<and>
           nd_shape frame = [2, H, W] \<and> length (nd_data frame) = 2 * H * W \<and>
           (\<forall>v\<in>set (nd_data frame). 0 \<le> v) \<and>
           sum_list (nd_data frame) = int j_r - int j_l \<and>
           (j_l = j_r \<longrightarrow> frame = zeros [2, H, W])"
proof -
  from integrate_frame_total [OF assms] obtain frame where
    frame: "integrate_events_segment_to_frame events H W (int j_l) (int j_r) = Inr frame"
    and rest: "nd_shape frame = [2, H, W]" "length (nd_data frame) = 2 * H * W"
      "\<forall>v\<in>set (nd_data frame). 0 \<le> v" "sum_list (nd_data frame) = int (j_r - j_l)"
    by blast
  have "frame = zeros [2, H, W]" if "j_l = j_r"
    using integrate_frame_empty [OF assms(1), of j_r] assms(3) frame that by simp
  moreover have "int (j_r - j_l) = int j_r - int j_l"
    using assms(2) by simp
  ultimately show ?thesis using frame rest by auto
qed

theorem integrate_segment_counts_total_witness:
  "(\<exists>frame. integrate_events_segment_to_frame four_events 3 3 0 4 = Inr frame \<and>
       nd_shape frame = [2, 3, 3] \<and> sum_list (nd_data frame) = 4) \<and>
   integrate_events_segment_to_frame four_events 3 3 2 2 = Inr (zeros [2, 3, 3])"
proof -
  have valid: "valid_events four_events 3 3"
    by (simp add: four_events_def valid_events_def)
  have len: "length (ev_t four_events) = 4"
    by (simp add: four_events_def)
  from integrate_segment_counts_total [OF valid, of 0 4]
    integrate_segment_counts_total [OF valid, of 2 2]
  show ?thesis by (auto simp: len)
qed

text \<open>
  Claim C2. Under the same conditions, cell \<open>(c, y0, x0)\<close> of the returned frame is the
  number of events \<open>i\<close> in \<open>[j_l, j_r)\<close> with \<open>(p_i, y_i, x_i) = (c, y0, x0)\<close>: events that
  share their coordinates and polarity are all counted.
\<close>

theorem integrate_segment_cell_multiplicity:
  assumes "valid_events events H W" and "j_l \<le> j_r" and "j_r \<le> length (ev_t events)"
      and "c < 2" and "y0 < H" and "x0 < W"
  shows "\<exists>frame. integrate_events_segment_to_frame events H W (int j_l) (int j_r) = Inr frame \<and>
           nd_get3 frame c y0 x0 =
             int (card {i. j_l \<le> i \<and> i < j_r \<and> ev_p events ! i = int c \<and>
                          ev_y events ! i = int y0 \<and> ev_x events ! i = int x0})"
  using assms by (rule integrate_frame_cell)

theorem integrate_segment_cell_multiplicity_witness:
  "\<exists>frame. integrate_events_segment_to_frame four_events 3 3 0 4 = Inr frame \<and>
      nd_get3 frame 0 1 1 = 2 \<and>
      card {i. 0 \<le> i \<and> i < 4 \<and> ev_p four_events ! i = 0 \<and>
               ev_y four_events ! i = 1 \<and> ev_x four_events ! i = 1} = 2"
proof -
  have valid: "valid_events four_events 3 3"
    by (simp add: four_events_def valid_events_def)
  have len: "length (ev_t four_events) = 4"
    by (simp add: four_events_def)
  have run: "integrate_events_segment_to_frame four_events 3 3 0 4 =
      Inr \<lparr>nd_shape = [2, 3, 3],
           nd_data = [0, 0, 0, 0, 2, 0, 0, 0, 0, 0, 0, 0, 0, 0, 1, 0, 1, 0]\<rparr>"
    by code_simp
  from integrate_segment_cell_multiplicity [OF valid, of 0 4 0 1 1]
  obtain frame where
    "integrate_events_segment_to_frame four_events 3 3 0 4 = Inr frame"
    "nd_get3 frame 0 1 1 =
       int (card {i. 0 \<le> i \<and> i < 4 \<and> ev_p four_events ! i = 0 \<and>
                    ev_y four_events ! i = 1 \<and> ev_x four_events ! i = 1})"
    by (auto simp: len)
  with run show ?thesis by (simp add: nd_get3_def)
qed

text \<open>
  Claim C9. Called with its default arguments \<open>j_l = 0\<close>, \<open>j_r = -1\<close> on a record of
  \<open>N \<ge> 1\<close> events, the integrator integrates the range \<open>[0, N - 1)\<close>: the frame counts
  \<open>N - 1\<close> events, each cell counts only events of index below \<open>N - 1\<close>, and the result
  differs from the integration of the whole record \<open>[0, N)\<close>.
\<close>

theorem default_arguments_exclude_last_event:
  assumes valid: "valid_events events H W" and N: "1 \<le> length (ev_t events)"
  shows "integrate_events_segment_to_frame_default events H W =
           integrate_events_segment_to_frame events H W 0 (int (length (ev_t events)) - 1) \<and>
         (\<exists>frame. integrate_events_segment_to_frame_default events H W = Inr frame \<and>
            sum_list (nd_data frame) = int (length (ev_t events)) - 1 \<and>
            (\<forall>c<2. \<forall>y0<H. \<forall>x0<W.
               nd_get3 frame c y0 x0 =
                 int (card {i. i < length (ev_t events) - 1 \<and> ev_p events ! i = int c \<and>
                              ev_y events ! i = int y0 \<and> ev_x events ! i = int x0}))) \<and>
         integrate_events_segment_to_frame_default events H W \<noteq>
           integrate_events_segment_to_frame events H W 0 (int (length (ev_t events)))"
proof -
  define n where "n = length (ev_t events)"
  have lens: "length (ev_x events) = n" "length (ev_y events) = n" "length (ev_p events) = n"
    using valid by (simp_all add: valid_events_def n_def)
  have n1: "int n - 1 = int (n - 1)" using N by (simp add: n_def)
  have same: "integrate_events_segment_to_frame_default events H W =
      integrate_events_segment_to_frame events H W (int 0) (int (n - 1))"
    using N py_slice_default [of "ev_x events"] py_slice_default [of "ev_y events"]
      py_slice_default [of "ev_p events"]
    by (simp add: integrate_events_segment_to_frame_default_def
        integrate_events_segment_to_frame_def lens n_def)
  have le: "0 \<le> n - 1" "n - 1 \<le> length (ev_t events)" by (simp_all add: n_def)
  from integrate_frame_total [OF valid le] obtain frame where
    frame: "integrate_events_segment_to_frame events H W (int 0) (int (n - 1)) = Inr frame"
    and total: "sum_list (nd_data frame) = int (n - 1 - 0)"
    by blast
  have cells: "nd_get3 frame c y0 x0 =
      int (card {i. i < n - 1 \<and> ev_p events ! i = int c \<and>
                   ev_y events ! i = int y0 \<and> ev_x events ! i = int x0})"
    if "c < 2" "y0 < H" "x0 < W" for c y0 x0
    using integrate_frame_cell [OF valid le that] frame by auto
  from integrate_frame_total [OF valid, of 0 n] obtain whole where
    whole: "integrate_events_segment_to_frame events H W (int 0) (int n) = Inr whole"
    and whole_total: "sum_list (nd_data whole) = int (n - 0)"
    by (auto simp: n_def)
  have "frame \<noteq> whole"
    using total whole_total N by (auto simp: n_def)
  then have C: "integrate_events_segment_to_frame_default events H W \<noteq>
      integrate_events_segment_to_frame events H W 0 (int n)"
    using same frame whole by simp
  have A: "integrate_events_segment_to_frame_default events H W =
      integrate_events_segment_to_frame events H W 0 (int n - 1)"
    unfolding n1 using same by simp
  have "integrate_events_segment_to_frame_default events H W = Inr frame"
    using same frame by simp
  moreover have "sum_list (nd_data frame) = int n - 1"
    unfolding n1 using total by simp
  ultimately have B: "\<exists>frame. integrate_events_segment_to_frame_default events H W = Inr frame \<and>
      sum_list (nd_data frame) = int n - 1 \<and>
      (\<forall>c<2. \<forall>y0<H. \<forall>x0<W.
         nd_get3 frame c y0 x0 =
           int (card {i. i < n - 1 \<and> ev_p events ! i = int c \<and>
                        ev_y events ! i = int y0 \<and> ev_x events ! i = int x0}))"
    using cells by blast
  show ?thesis
    unfolding n_def [symmetric] by (intro conjI A B C)
qed

theorem default_arguments_exclude_last_event_witness:
  "integrate_events_segment_to_frame_default four_events 3 3 =
     integrate_events_segment_to_frame four_events 3 3 0 3 \<and>
   (\<exists>frame. integrate_events_segment_to_frame_default four_events 3 3 = Inr frame \<and>
      sum_list (nd_data frame) = 3) \<and>
   integrate_events_segment_to_frame_default four_events 3 3 \<noteq>
     integrate_events_segment_to_frame four_events 3 3 0 4"
proof -
  have valid: "valid_events four_events 3 3"
    by (simp add: four_events_def valid_events_def)
  have len: "length (ev_t four_events) = 4"
    by (simp add: four_events_def)
  have N: "1 \<le> length (ev_t four_events)"
    by (simp add: len)
  note inst = default_arguments_exclude_last_event [OF valid N]
  from inst have same: "integrate_events_segment_to_frame_default four_events 3 3 =
      integrate_events_segment_to_frame four_events 3 3 0 (int (length (ev_t four_events)) - 1)"
    by (rule conjunct1)
  from inst have differs: "integrate_events_segment_to_frame_default four_events 3 3 \<noteq>
      integrate_events_segment_to_frame four_events 3 3 0 (int (length (ev_t four_events)))"
    by (rule conjunct2 [THEN conjunct2])
  from inst obtain frame where
    frame: "integrate_events_segment_to_frame_default four_events 3 3 = Inr frame"
      "sum_list (nd_data frame) = int (length (ev_t four_events)) - 1"
    by blast
  have "sum_list (nd_data frame) = 3"
    using frame(2) by (simp add: len)
  moreover have "integrate_events_segment_to_frame_default four_events 3 3 =
      integrate_events_segment_to_frame four_events 3 3 0 3"
    using same by (simp add: len)
  moreover have "integrate_events_segment_to_frame_default four_events 3 3 \<noteq>
      integrate_events_segment_to_frame four_events 3 3 0 4"
    using differs by (simp add: len)
  ultimately show ?thesis using frame(1) by blast
qed

section \<open>Binning by a fixed duration\<close>

lemma advance_right_result:
  "right \<le> length t \<Longrightarrow>
   \<exists>r. advance_right t t_l duration right = Inr r \<and> right \<le> r \<and> r \<le> length t \<and>
       (\<forall>k. right \<le> k \<and> k < r \<longrightarrow> t ! k - t_l \<le> duration) \<and>
       (r = length t \<or> duration < t ! r - t_l)"
proof (induction t t_l duration right rule: advance_right.induct)
  case (1 t t_l duration right)
  show ?case
  proof (cases "right = length t \<or> duration < t ! right - t_l")
    case True
    then show ?thesis
      using "1.prems" by (subst advance_right.simps) auto
  next
    case False
    then have lt: "right < length t" using "1.prems" by simp
    with False "1.IH" obtain r where
      r: "advance_right t t_l duration (right + 1) = Inr r" "right + 1 \<le> r" "r \<le> length t"
        "\<forall>k. right + 1 \<le> k \<and> k < r \<longrightarrow> t ! k - t_l \<le> duration"
        "r = length t \<or> duration < t ! r - t_l"
      by force
    have "advance_right t t_l duration right = Inr r"
      using False lt r(1) by (subst advance_right.simps) simp
    moreover have "\<forall>k. right \<le> k \<and> k < r \<longrightarrow> t ! k - t_l \<le> duration"
    proof (intro allI impI)
      fix k assume "right \<le> k \<and> k < r"
      then consider "k = right" | "right + 1 \<le> k \<and> k < r" by linarith
      then show "t ! k - t_l \<le> duration"
        using False r(4) by cases auto
    qed
    ultimately show ?thesis using r(2,3,5) by auto
  qed
qed

lemma advance_right_progress:
  assumes "left < length t" and "0 \<le> duration"
  shows "\<exists>r. advance_right t (t ! left) duration left = Inr r \<and> left < r \<and> r \<le> length t \<and>
           (\<forall>k. left \<le> k \<and> k < r \<longrightarrow> t ! k - t ! left \<le> duration)"
proof -
  from advance_right_result [of left t "t ! left" duration] assms(1) obtain r where
    r: "advance_right t (t ! left) duration left = Inr r" "left \<le> r" "r \<le> length t"
      "\<forall>k. left \<le> k \<and> k < r \<longrightarrow> t ! k - t ! left \<le> duration"
      "r = length t \<or> duration < t ! r - t ! left"
    by auto
  have "r \<noteq> left" using r(5) assms by auto
  with r show ?thesis by auto
qed

lemma fixed_duration_loop_terminates:
  assumes "0 \<le> duration"
  shows "left < length t \<Longrightarrow> \<exists>res. fixed_duration_loop seg t duration left left frames = Some res"
proof (induction "length t - left" arbitrary: left frames rule: less_induct)
  case less
  from advance_right_progress [OF less.prems assms] obtain r where
    r: "advance_right t (t ! left) duration left = Inr r" "left < r" "r \<le> length t"
    by blast
  show ?case
  proof (cases "seg left r")
    case (Inl e)
    then show ?thesis
      using less.prems r(1) by (subst fixed_duration_loop.simps) simp
  next
    case (Inr frame)
    show ?thesis
    proof (cases "r = length t")
      case True
      then show ?thesis
        using less.prems r(1) Inr by (subst fixed_duration_loop.simps) simp
    next
      case False
      then have "r < length t" "length t - r < length t - left"
        using r(2,3) less.prems by simp_all
      from less.hyps [OF this(2,1), of "frames @ [frame]"] show ?thesis
        using less.prems r(1) Inr False by (subst fixed_duration_loop.simps) simp
    qed
  qed
qed

lemma fixed_duration_loop_segments:
  assumes d: "0 \<le> duration"
      and seg: "\<And>l r. l < r \<Longrightarrow> r \<le> length t \<Longrightarrow> seg l r = Inr (g l r)"
  shows "left < length t \<Longrightarrow>
     \<exists>segs. fixed_duration_loop (\<lambda>l r. Inr (l, r)) t duration left left acc0 = Some (Inr (acc0 @ segs)) \<and>
        fixed_duration_loop seg t duration left left acc =
          Some (Inr (acc @ map (\<lambda>(l, r). g l r) segs)) \<and>
        segs \<noteq> [] \<and> fst (hd segs) = left \<and> snd (last segs) = length t \<and>
        length segs \<le> length t - left \<and>
        concat (map (\<lambda>(l, r). [l..<r]) segs) = [left..<length t] \<and>
        (\<forall>k. Suc k < length segs \<longrightarrow> snd (segs ! k) = fst (segs ! Suc k)) \<and>
        (\<forall>(l, r)\<in>set segs. l < r \<and> r \<le> length t \<and>
            (\<forall>k. l \<le> k \<and> k < r \<longrightarrow> t ! k - t ! l \<le> duration))"
proof (induction "length t - left" arbitrary: left acc0 acc rule: less_induct)
  case less
  from advance_right_progress [OF less.prems d] obtain r where
    r: "advance_right t (t ! left) duration left = Inr r" "left < r" "r \<le> length t"
       "\<forall>k. left \<le> k \<and> k < r \<longrightarrow> t ! k - t ! left \<le> duration"
    by blast
  note sg = seg [OF r(2,3)]
  show ?case
  proof (cases "r = length t")
    case True
    have "fixed_duration_loop (\<lambda>l r. Inr (l, r)) t duration left left acc0
            = Some (Inr (acc0 @ [(left, r)]))"
      using less.prems r(1) True by (subst fixed_duration_loop.simps) simp
    moreover have "fixed_duration_loop seg t duration left left acc
            = Some (Inr (acc @ map (\<lambda>(l, r). g l r) [(left, r)]))"
      using less.prems r(1) True sg by (subst fixed_duration_loop.simps) simp
    moreover have "concat (map (\<lambda>(l, r). [l..<r]) [(left, r)]) = [left..<length t]"
      using True by simp
    moreover have "length [(left, r)] \<le> length t - left"
      using less.prems by simp
    ultimately show ?thesis
      using r True by (intro exI [of _ "[(left, r)]"]) simp
  next
    case False
    then have rlt: "r < length t" and dec: "length t - r < length t - left"
      using r(2,3) less.prems by simp_all
    from less.hyps [OF dec rlt, of "acc0 @ [(left, r)]" "acc @ [g left r]"] obtain segs where
      s: "fixed_duration_loop (\<lambda>l r. Inr (l, r)) t duration r r (acc0 @ [(left, r)])
            = Some (Inr ((acc0 @ [(left, r)]) @ segs))"
         "fixed_duration_loop seg t duration r r (acc @ [g left r])
            = Some (Inr ((acc @ [g left r]) @ map (\<lambda>(l, r). g l r) segs))"
         "segs \<noteq> []" "fst (hd segs) = r" "snd (last segs) = length t"
         "length segs \<le> length t - r"
         "concat (map (\<lambda>(l, r). [l..<r]) segs) = [r..<length t]"
         "\<forall>k. Suc k < length segs \<longrightarrow> snd (segs ! k) = fst (segs ! Suc k)"
         "\<forall>(l, r)\<in>set segs. l < r \<and> r \<le> length t \<and>
            (\<forall>k. l \<le> k \<and> k < r \<longrightarrow> t ! k - t ! l \<le> duration)"
      by blast
    let ?segs = "(left, r) # segs"
    have 1: "fixed_duration_loop (\<lambda>l r. Inr (l, r)) t duration left left acc0
            = Some (Inr (acc0 @ ?segs))"
      using less.prems r(1) False s(1) by (subst fixed_duration_loop.simps) simp
    have 2: "fixed_duration_loop seg t duration left left acc
            = Some (Inr (acc @ map (\<lambda>(l, r). g l r) ?segs))"
      using less.prems r(1) False sg s(2) by (subst fixed_duration_loop.simps) simp
    have 3: "concat (map (\<lambda>(l, r). [l..<r]) ?segs) = [left..<length t]"
      using s(7) r(2,3) upt_add_eq_append [of left r "length t - r"] by simp
    have 4: "length ?segs \<le> length t - left"
      using s(6) r(2) rlt by simp
    have 5: "\<forall>k. Suc k < length ?segs \<longrightarrow> snd (?segs ! k) = fst (?segs ! Suc k)"
    proof (intro allI impI)
      fix k assume k: "Suc k < length ?segs"
      show "snd (?segs ! k) = fst (?segs ! Suc k)"
      proof (cases k)
        case 0
        then show ?thesis using s(3,4) by (simp add: hd_conv_nth)
      next
        case (Suc j)
        then show ?thesis using s(8) k by simp
      qed
    qed
    have 6: "\<forall>(l, r)\<in>set ?segs. l < r \<and> r \<le> length t \<and>
            (\<forall>k. l \<le> k \<and> k < r \<longrightarrow> t ! k - t ! l \<le> duration)"
      using s(9) r(2,3,4) by simp
    have 7: "?segs \<noteq> []" "fst (hd ?segs) = left" "snd (last ?segs) = length t"
      using s(3,5) by simp_all
    show ?thesis
      using 1 2 3 4 5 6 7 by (intro exI [of _ ?segs]) blast
  qed
qed

lemma concatenate_uniform:
  assumes "fs \<noteq> []" and "\<forall>f\<in>set fs. nd_shape f = 1 # shp"
  shows "concatenate fs = Inr \<lparr>nd_shape = length fs # shp, nd_data = concat (map nd_data fs)\<rparr>"
proof -
  obtain a rest where fs: "fs = a # rest" using assms(1) by (cases fs) auto
  have "sum_list (map (\<lambda>b. hd (nd_shape b)) fs) = length fs"
    using assms(2) by (induction fs) auto
  moreover have "\<not> list_ex (\<lambda>b. nd_shape b = [] \<or> tl (nd_shape b) \<noteq> tl (nd_shape a)) fs"
    using assms(2) fs by (auto simp: list_ex_iff)
  ultimately show ?thesis
    using assms(2) by (simp add: concatenate_def fs)
qed

lemma take_drop_concat_block:
  "\<forall>x\<in>set xss. length x = sz \<Longrightarrow> k < length xss \<Longrightarrow>
   take sz (drop (k * sz) (concat xss)) = xss ! k"
proof (induction xss arbitrary: k)
  case Nil
  then show ?case by simp
next
  case (Cons x xss)
  then show ?case by (cases k) auto
qed

lemma sum_list_concat_blocks:
  fixes xss :: "int list list"
  shows "sum_list (concat xss) = sum_list (map sum_list xss)"
  by (induction xss) auto

lemma length_concat_ranges:
  "\<forall>(l, r)\<in>set segs. l \<le> r \<Longrightarrow>
   sum_list (map (\<lambda>(l, r). int r - int l) segs) = int (length (concat (map (\<lambda>(l, r). [l..<r]) segs)))"
  by (induction segs) auto

lemma frames_of_segments:
  assumes valid: "valid_events events H W"
      and segs: "\<forall>(l, r)\<in>set segs. l \<le> r \<and> r \<le> length (ev_t events)"
      and ne: "segs \<noteq> []"
  shows "\<exists>frames.
           concatenate (map (\<lambda>(l, r). expand_dims0
               (projr (integrate_events_segment_to_frame events H W (int l) (int r)))) segs)
             = Inr frames \<and>
           nd_shape frames = [length segs, 2, H, W] \<and>
           (\<forall>k<length segs.
              integrate_events_segment_to_frame events H W
                  (int (fst (segs ! k))) (int (snd (segs ! k))) = Inr (nd_index0 frames k)) \<and>
           sum_list (nd_data frames) = int (length (concat (map (\<lambda>(l, r). [l..<r]) segs)))"
proof -
  let ?F = "\<lambda>l r. projr (integrate_events_segment_to_frame events H W (int l) (int r))"
  let ?fs = "map (\<lambda>(l, r). expand_dims0 (?F l r)) segs"
  define sz where "sz = 2 * H * W"
  have F: "integrate_events_segment_to_frame events H W (int l) (int r) = Inr (?F l r) \<and>
           nd_shape (?F l r) = [2, H, W] \<and> length (nd_data (?F l r)) = sz \<and>
           sum_list (nd_data (?F l r)) = int r - int l"
    if "(l, r) \<in> set segs" for l r
  proof -
    from that segs have lr: "l \<le> r" "r \<le> length (ev_t events)" by auto
    from integrate_frame_total [OF valid lr] lr(1) show ?thesis
      by (auto simp: sz_def)
  qed
  have shapes: "\<forall>f\<in>set ?fs. nd_shape f = 1 # [2, H, W]"
    using F by (auto simp: expand_dims0_def)
  define frames where
    "frames = \<lparr>nd_shape = length ?fs # [2, H, W], nd_data = concat (map nd_data ?fs)\<rparr>"
  have cat: "concatenate ?fs = Inr frames"
    unfolding frames_def using ne by (intro concatenate_uniform shapes) simp
  have blocks: "\<forall>x\<in>set (map nd_data ?fs). length x = sz"
    using F by (auto simp: expand_dims0_def)
  have nth: "integrate_events_segment_to_frame events H W
                  (int (fst (segs ! k))) (int (snd (segs ! k))) = Inr (nd_index0 frames k)"
    if k: "k < length segs" for k
  proof -
    obtain l r where lr: "segs ! k = (l, r)" by (cases "segs ! k")
    then have mem: "(l, r) \<in> set segs" using k by (metis nth_mem)
    have "take sz (drop (k * sz) (concat (map nd_data ?fs))) = map nd_data ?fs ! k"
      using blocks k by (intro take_drop_concat_block) simp_all
    also have "\<dots> = nd_data (?F l r)"
      using k lr by (simp add: expand_dims0_def)
    finally have "nd_index0 frames k = ?F l r"
      using F [OF mem] by (simp add: nd_index0_def frames_def sz_def mult.assoc)
    then show ?thesis using F [OF mem] lr by simp
  qed
  have "sum_list (nd_data frames) = sum_list (map (\<lambda>(l, r). int r - int l) segs)"
  proof -
    have eq: "map (\<lambda>x. sum_list (nd_data (case x of (l, r) \<Rightarrow> expand_dims0 (?F l r)))) segs
        = map (\<lambda>(l, r). int r - int l) segs"
    proof (rule map_cong [OF refl])
      fix x assume mem: "x \<in> set segs"
      obtain l r where x: "x = (l, r)" by (cases x)
      from F [of l r] mem x
      show "sum_list (nd_data (case x of (l, r) \<Rightarrow> expand_dims0 (?F l r)))
          = (case x of (l, r) \<Rightarrow> int r - int l)"
        by (simp add: expand_dims0_def)
    qed
    have "sum_list (nd_data frames)
        = sum_list (map (\<lambda>x. sum_list (nd_data (case x of (l, r) \<Rightarrow> expand_dims0 (?F l r)))) segs)"
      by (simp add: frames_def sum_list_concat_blocks o_def)
    then show ?thesis by (simp only: eq)
  qed
  also have "\<dots> = int (length (concat (map (\<lambda>(l, r). [l..<r]) segs)))"
    using segs by (intro length_concat_ranges) auto
  finally have total: "sum_list (nd_data frames) =
      int (length (concat (map (\<lambda>(l, r). [l..<r]) segs)))" .
  have "nd_shape frames = [length segs, 2, H, W]"
    by (simp add: frames_def)
  with cat nth total show ?thesis by blast
qed

lemma fixed_duration_run:
  assumes valid: "valid_events events H W" and N: "1 \<le> length (ev_t events)"
      and d: "0 \<le> duration"
  shows "\<exists>segs frames.
           fixed_duration_segments (ev_t events) duration = Some (Inr segs) \<and>
           integrate_events_by_fixed_duration events duration H W = Some (Inr frames) \<and>
           segs \<noteq> [] \<and> length segs \<le> length (ev_t events) \<and>
           concat (map (\<lambda>(l, r). [l..<r]) segs) = [0..<length (ev_t events)] \<and>
           (\<forall>k. Suc k < length segs \<longrightarrow> snd (segs ! k) = fst (segs ! Suc k)) \<and>
           (\<forall>(l, r)\<in>set segs. l < r \<and> r \<le> length (ev_t events) \<and>
              (\<forall>k. l \<le> k \<and> k < r \<longrightarrow> ev_t events ! k - ev_t events ! l \<le> duration)) \<and>
           nd_shape frames = [length segs, 2, H, W] \<and>
           (\<forall>k<length segs.
              integrate_events_segment_to_frame events H W
                  (int (fst (segs ! k))) (int (snd (segs ! k))) = Inr (nd_index0 frames k)) \<and>
           sum_list (nd_data frames) = int (length (ev_t events))"
proof -
  let ?t = "ev_t events"
  let ?seg = "\<lambda>left right.
                case integrate_events_segment_to_frame events H W (int left) (int right) of
                  Inl e \<Rightarrow> Inl e
                | Inr frame \<Rightarrow> Inr (expand_dims0 frame)"
  let ?g = "\<lambda>l r. expand_dims0
               (projr (integrate_events_segment_to_frame events H W (int l) (int r)))"
  have seg: "?seg l r = Inr (?g l r)" if "l < r" "r \<le> length ?t" for l r
  proof -
    from that have "l \<le> r" by simp
    from integrate_frame_total [OF valid this that(2)] show ?thesis by auto
  qed
  have pos: "0 < length ?t" using N by (cases ?t) simp_all
  from fixed_duration_loop_segments [of duration ?t ?seg ?g 0 "[]" "[]", OF d seg pos]
  obtain segs where
    s: "fixed_duration_loop (\<lambda>l r. Inr (l, r)) ?t duration 0 0 [] = Some (Inr segs)"
       "fixed_duration_loop ?seg ?t duration 0 0 [] = Some (Inr (map (\<lambda>(l, r). ?g l r) segs))"
       "segs \<noteq> []" "length segs \<le> length ?t"
       "concat (map (\<lambda>(l, r). [l..<r]) segs) = [0..<length ?t]"
       "\<forall>k. Suc k < length segs \<longrightarrow> snd (segs ! k) = fst (segs ! Suc k)"
       "\<forall>(l, r)\<in>set segs. l < r \<and> r \<le> length ?t \<and>
            (\<forall>k. l \<le> k \<and> k < r \<longrightarrow> ?t ! k - ?t ! l \<le> duration)"
    by auto
  have "\<forall>(l, r)\<in>set segs. l \<le> r \<and> r \<le> length ?t"
    using s(7) by auto
  from frames_of_segments [OF valid this s(3)] obtain frames where
    f: "concatenate (map (\<lambda>(l, r). ?g l r) segs) = Inr frames"
       "nd_shape frames = [length segs, 2, H, W]"
       "\<forall>k<length segs.
          integrate_events_segment_to_frame events H W
              (int (fst (segs ! k))) (int (snd (segs ! k))) = Inr (nd_index0 frames k)"
       "sum_list (nd_data frames) = int (length (concat (map (\<lambda>(l, r). [l..<r]) segs)))"
    by blast
  have run: "integrate_events_by_fixed_duration events duration H W = Some (Inr frames)"
    by (simp add: integrate_events_by_fixed_duration_def s(2) f(1))
  have "sum_list (nd_data frames) = int (length ?t)"
    using f(4) s(5) by simp
  with s run f(2,3) show ?thesis
    unfolding fixed_duration_segments_def by blast
qed

text \<open>
  Claim C6, as the code has it. The binner has no guard for an empty record: with
  \<open>N = 0\<close> the first statement of the loop, \<^verbatim>\<open>t_l = t[left]\<close>, raises IndexError. No
  frame sequence is returned, and the loop is not entered a second time.
\<close>

theorem fixed_duration_empty_record_raises:
  "integrate_events_by_fixed_duration (events\<lparr>ev_t := []\<rparr>) duration H W = Some (Inl IndexError)"
  unfolding integrate_events_by_fixed_duration_def
  by (subst fixed_duration_loop.simps) simp

text \<open>
  Claim C6 as stated fails: on the empty record, with duration 1 and a 2 by 2 sensor, the
  binner raises IndexError and does not return the empty frame sequence.
\<close>

theorem fixed_duration_empty_record_counterexample:
  "integrate_events_by_fixed_duration empty_events 1 2 2 = Some (Inl IndexError) \<and>
   integrate_events_by_fixed_duration empty_events 1 2 2 \<noteq> Some (Inr (zeros [0, 2, 2, 2]))"
  unfolding integrate_events_by_fixed_duration_def empty_events_def
  by (subst fixed_duration_loop.simps, simp)+

text \<open>
  Claim C10. For a record with \<open>N \<ge> 1\<close> events and a duration \<open>\<ge> 0\<close> the binner
  terminates. Every index range it integrates is non-empty and starts where the previous
  one ends, so \<open>left\<close> strictly increases, and at most \<open>N\<close> ranges are produced; on a
  valid record the result is a sequence of at most \<open>N\<close> frames. Sortedness of the
  timestamps is not needed.
\<close>

theorem fixed_duration_terminates:
  assumes N: "1 \<le> length (ev_t events)" and d: "0 \<le> duration"
  shows "integrate_events_by_fixed_duration events duration H W \<noteq> None \<and>
         (\<exists>segs. fixed_duration_segments (ev_t events) duration = Some (Inr segs) \<and>
            length segs \<le> length (ev_t events) \<and>
            (\<forall>(l, r)\<in>set segs. l < r) \<and>
            (\<forall>k. Suc k < length segs \<longrightarrow> snd (segs ! k) = fst (segs ! Suc k))) \<and>
         (valid_events events H W \<longrightarrow>
            (\<exists>frames. integrate_events_by_fixed_duration events duration H W = Some (Inr frames) \<and>
               hd (nd_shape frames) \<le> length (ev_t events)))"
proof (intro conjI impI)
  have pos: "0 < length (ev_t events)" using N by (cases "ev_t events") simp_all
  from fixed_duration_loop_terminates [OF d pos] obtain res where
    "fixed_duration_loop
       (\<lambda>left right.
          case integrate_events_segment_to_frame events H W (int left) (int right) of
            Inl e \<Rightarrow> Inl e
          | Inr frame \<Rightarrow> Inr (expand_dims0 frame))
       (ev_t events) duration 0 0 [] = Some res"
    by blast
  then show "integrate_events_by_fixed_duration events duration H W \<noteq> None"
    by (cases res) (simp_all add: integrate_events_by_fixed_duration_def)
  have "\<And>l r. l < r \<Longrightarrow> r \<le> length (ev_t events) \<Longrightarrow> Inr (l, r) = Inr (l, r)"
    by simp
  from fixed_duration_loop_segments
    [of duration "ev_t events" "\<lambda>l r. Inr (l, r)" "\<lambda>l r. (l, r)" 0 "[]" "[]", OF d this pos]
  obtain segs where
    s: "fixed_duration_loop (\<lambda>l r. Inr (l, r)) (ev_t events) duration 0 0 [] = Some (Inr segs)"
    "length segs \<le> length (ev_t events)"
    "\<forall>k. Suc k < length segs \<longrightarrow> snd (segs ! k) = fst (segs ! Suc k)"
    and span: "\<forall>(l, r)\<in>set segs. l < r \<and> r \<le> length (ev_t events) \<and>
        (\<forall>k. l \<le> k \<and> k < r \<longrightarrow> ev_t events ! k - ev_t events ! l \<le> duration)"
    by auto
  have "\<forall>(l, r)\<in>set segs. l < r"
  proof (intro ballI)
    fix x assume "x \<in> set segs"
    with span show "case x of (l, r) \<Rightarrow> l < r" by (cases x) blast
  qed
  with s show "\<exists>segs. fixed_duration_segments (ev_t events) duration = Some (Inr segs) \<and>
            length segs \<le> length (ev_t events) \<and>
            (\<forall>(l, r)\<in>set segs. l < r) \<and>
            (\<forall>k. Suc k < length segs \<longrightarrow> snd (segs ! k) = fst (segs ! Suc k))"
    unfolding fixed_duration_segments_def by blast
next
  assume valid: "valid_events events H W"
  from fixed_duration_run [OF valid N d] obtain segs :: "(nat \<times> nat) list" and frames where
    "integrate_events_by_fixed_duration events duration H W = Some (Inr frames)"
    "length segs \<le> length (ev_t events)" "nd_shape frames = [length segs, 2, H, W]"
    by blast
  then show "\<exists>frames. integrate_events_by_fixed_duration events duration H W = Some (Inr frames) \<and>
               hd (nd_shape frames) \<le> length (ev_t events)"
    by auto
qed

theorem fixed_duration_terminates_witness:
  "integrate_events_by_fixed_duration four_events 0 3 3 \<noteq> None \<and>
   (\<exists>segs. fixed_duration_segments (ev_t four_events) 0 = Some (Inr segs) \<and> length segs \<le> 4) \<and>
   (\<exists>frames. integrate_events_by_fixed_duration four_events 0 3 3 = Some (Inr frames) \<and>
      hd (nd_shape frames) \<le> 4)"
proof -
  have valid: "valid_events four_events 3 3"
    by (simp add: four_events_def valid_events_def)
  have len: "length (ev_t four_events) = 4"
    by (simp add: four_events_def)
  have N: "1 \<le> length (ev_t four_events)"
    by (simp add: len)
  have d: "(0::int) \<le> 0" by simp
  note inst = fixed_duration_terminates [OF N d, of 3 3]
  from inst have "integrate_events_by_fixed_duration four_events 0 3 3 \<noteq> None"
    by (rule conjunct1)
  moreover from inst obtain segs where
    "fixed_duration_segments (ev_t four_events) 0 = Some (Inr segs)"
    "length segs \<le> length (ev_t four_events)"
    by blast
  then have "\<exists>segs. fixed_duration_segments (ev_t four_events) 0 = Some (Inr segs) \<and>
      length segs \<le> 4"
    unfolding len by blast
  moreover from inst valid obtain frames where
    "integrate_events_by_fixed_duration four_events 0 3 3 = Some (Inr frames)"
    "hd (nd_shape frames) \<le> length (ev_t four_events)"
    by blast
  then have "\<exists>frames. integrate_events_by_fixed_duration four_events 0 3 3 = Some (Inr frames) \<and>
      hd (nd_shape frames) \<le> 4"
    unfolding len by blast
  ultimately show ?thesis by blast
qed

text \<open>
  Claim C5. For a valid event record with \<open>N \<ge> 1\<close> non-decreasing timestamps and a
  positive duration, the binner returns normally; the index ranges it integrates, in the
  order it produces them, are non-empty, each starts where the previous one ends, and
  their concatenation is \<open>[0, N)\<close>, so every event lies in exactly one range; frame \<open>k\<close>
  of the result is the integration of range \<open>k\<close>; the frames count \<open>N\<close> events in total;
  and any two timestamps of one range differ by at most the duration.
\<close>

theorem fixed_duration_partition:
  assumes valid: "valid_events events H W" and N: "1 \<le> length (ev_t events)"
      and sorted: "sorted (ev_t events)" and d: "0 < duration"
  shows "\<exists>segs frames.
           fixed_duration_segments (ev_t events) duration = Some (Inr segs) \<and>
           integrate_events_by_fixed_duration events duration H W = Some (Inr frames) \<and>
           concat (map (\<lambda>(l, r). [l..<r]) segs) = [0..<length (ev_t events)] \<and>
           (\<forall>k. Suc k < length segs \<longrightarrow> snd (segs ! k) = fst (segs ! Suc k)) \<and>
           (\<forall>(l, r)\<in>set segs. l < r \<and>
              (\<forall>i j. l \<le> i \<and> i < r \<and> l \<le> j \<and> j < r \<longrightarrow>
                 ev_t events ! i - ev_t events ! j \<le> duration)) \<and>
           nd_shape frames = [length segs, 2, H, W] \<and>
           (\<forall>k<length segs.
              integrate_events_segment_to_frame events H W
                  (int (fst (segs ! k))) (int (snd (segs ! k))) = Inr (nd_index0 frames k)) \<and>
           sum_list (nd_data frames) = int (length (ev_t events))"
proof -
  have d0: "0 \<le> duration" using d by simp
  from fixed_duration_run [OF valid N d0] obtain segs frames where
    r: "fixed_duration_segments (ev_t events) duration = Some (Inr segs)"
       "integrate_events_by_fixed_duration events duration H W = Some (Inr frames)"
       "concat (map (\<lambda>(l, r). [l..<r]) segs) = [0..<length (ev_t events)]"
       "\<forall>k. Suc k < length segs \<longrightarrow> snd (segs ! k) = fst (segs ! Suc k)"
       "nd_shape frames = [length segs, 2, H, W]"
       "\<forall>k<length segs.
          integrate_events_segment_to_frame events H W
              (int (fst (segs ! k))) (int (snd (segs ! k))) = Inr (nd_index0 frames k)"
       "sum_list (nd_data frames) = int (length (ev_t events))"
    and span: "\<forall>(l, r)\<in>set segs. l < r \<and> r \<le> length (ev_t events) \<and>
              (\<forall>k. l \<le> k \<and> k < r \<longrightarrow> ev_t events ! k - ev_t events ! l \<le> duration)"
    by blast
  have "\<forall>(l, r)\<in>set segs. l < r \<and>
          (\<forall>i j. l \<le> i \<and> i < r \<and> l \<le> j \<and> j < r \<longrightarrow>
             ev_t events ! i - ev_t events ! j \<le> duration)"
  proof (intro ballI, clarify, intro conjI allI impI)
    fix l r assume mem: "(l, r) \<in> set segs"
    with span show "l < r" by auto
    fix i j assume ij: "l \<le> i \<and> i < r \<and> l \<le> j \<and> j < r"
    from span mem have r: "r \<le> length (ev_t events)"
      and first: "ev_t events ! i - ev_t events ! l \<le> duration"
      using ij by auto
    have "ev_t events ! l \<le> ev_t events ! j"
      using sorted ij r by (intro sorted_nth_mono) simp_all
    with first show "ev_t events ! i - ev_t events ! j \<le> duration" by simp
  qed
  with r show ?thesis by blast
qed

theorem fixed_duration_partition_witness:
  "\<exists>segs frames.
     fixed_duration_segments (ev_t four_events) 1 = Some (Inr segs) \<and>
     integrate_events_by_fixed_duration four_events 1 3 3 = Some (Inr frames) \<and>
     concat (map (\<lambda>(l, r). [l..<r]) segs) = [0..<4] \<and>
     nd_shape frames = [length segs, 2, 3, 3] \<and>
     sum_list (nd_data frames) = 4"
proof -
  have valid: "valid_events four_events 3 3"
    by (simp add: four_events_def valid_events_def)
  have len: "length (ev_t four_events) = 4"
    by (simp add: four_events_def)
  have N: "1 \<le> length (ev_t four_events)"
    by (simp add: len)
  have sorted: "sorted (ev_t four_events)"
    by (simp add: four_events_def)
  have d: "(0::int) < 1" by simp
  from fixed_duration_partition [OF valid N sorted d, of ] obtain segs frames where
    run: "fixed_duration_segments (ev_t four_events) 1 = Some (Inr segs)"
      "integrate_events_by_fixed_duration four_events 1 3 3 = Some (Inr frames)"
      "nd_shape frames = [length segs, 2, 3, 3]"
    and cover: "concat (map (\<lambda>(l, r). [l..<r]) segs) = [0..<length (ev_t four_events)]"
    and total: "sum_list (nd_data frames) = int (length (ev_t four_events))"
    by blast
  have "concat (map (\<lambda>(l, r). [l..<r]) segs) = [0..<4]"
    using cover by (simp only: len)
  moreover have "sum_list (nd_data frames) = 4"
    using total by (simp add: len)
  ultimately show ?thesis using run by blast
qed

section \<open>Splitting by time\<close>

lemma sorted_less_count:
  "sorted t \<Longrightarrow> k < length t \<Longrightarrow> t ! k < v \<longleftrightarrow> k < length (filter (\<lambda>x. x < v) t)"
proof (induction t arbitrary: k)
  case Nil
  then show ?case by simp
next
  case (Cons x xs)
  show ?case
  proof (cases "x < v")
    case True
    then show ?thesis
      using Cons by (cases k) auto
  next
    case False
    have "\<forall>y\<in>set (x # xs). \<not> y < v"
      using False Cons.prems(1) by auto
    moreover have "(x # xs) ! k \<in> set (x # xs)"
      using Cons.prems(2) by (intro nth_mem)
    ultimately show ?thesis
      by (auto simp: filter_empty_conv simp del: nth_Cons_Suc nth_mem)
  qed
qed

lemma filter_interval:
  "n \<le> N \<Longrightarrow> filter (\<lambda>k. m \<le> k \<and> k < n) [0..<N] = [m..<n]"
  by (intro sorted_distinct_set_unique) (auto simp: sorted_wrt_filter)

lemma window_indices:
  fixes t :: "int list"
  assumes "sorted t"
  shows "filter (\<lambda>k. a \<le> t ! k \<and> t ! k < b) [0..<length t] =
           [length (filter (\<lambda>x. x < a) t)..<length (filter (\<lambda>x. x < b) t)]"
proof -
  have "filter (\<lambda>k. a \<le> t ! k \<and> t ! k < b) [0..<length t] =
        filter (\<lambda>k. length (filter (\<lambda>x. x < a) t) \<le> k \<and> k < length (filter (\<lambda>x. x < b) t))
          [0..<length t]"
  proof (rule filter_cong [OF refl])
    fix k assume "k \<in> set [0..<length t]"
    then have k: "k < length t" by simp
    from sorted_less_count [OF assms k, of a] sorted_less_count [OF assms k, of b]
    show "(a \<le> t ! k \<and> t ! k < b) =
          (length (filter (\<lambda>x. x < a) t) \<le> k \<and> k < length (filter (\<lambda>x. x < b) t))"
      by auto
  qed
  then show ?thesis
    by (simp add: filter_interval)
qed

lemma time_loop_nth:
  fixes events_t :: "int list"
  assumes srt: "sorted events_t"
      and len: "length j_l = n" "length j_r = n"
      and idx: "\<forall>i\<in>set is. i < n \<and>
                 length (filter (\<lambda>x. x < dt * int i + events_t ! 0) events_t)
                   < length (filter (\<lambda>x. x < dt * int i + events_t ! 0 + dt) events_t)"
  shows "\<exists>j_l' j_r'. time_loop events_t dt is (j_l, j_r) = Inr (j_l', j_r') \<and>
           length j_l' = n \<and> length j_r' = n \<and>
           (\<forall>i<n. j_l' ! i =
              (if i \<in> set is
               then int (length (filter (\<lambda>x. x < dt * int i + events_t ! 0) events_t))
               else j_l ! i)) \<and>
           (\<forall>i<n. j_r' ! i =
              (if i \<in> set is
               then int (length (filter (\<lambda>x. x < dt * int i + events_t ! 0 + dt) events_t))
               else j_r ! i))"
  using len idx
proof (induction "is" arbitrary: j_l j_r)
  case Nil
  then show ?case by simp
next
  case (Cons i "is")
  let ?a = "dt * int i + events_t ! 0"
  define lo where "lo = length (filter (\<lambda>x. x < ?a) events_t)"
  define hi where "hi = length (filter (\<lambda>x. x < ?a + dt) events_t)"
  let ?l = "j_l[i := int lo]"
  let ?r = "j_r[i := int hi]"
  have i: "i < n" and ne: "lo < hi" using Cons.prems(3) by (simp_all add: lo_def hi_def)
  have win: "filter (\<lambda>k. ?a \<le> events_t ! k \<and> events_t ! k < ?a + dt) [0..<length events_t]
      = [lo..<hi]"
    unfolding lo_def hi_def by (rule window_indices [OF srt])
  have hd_last: "hd [lo..<hi] = lo" "int (last [lo..<hi]) + 1 = int hi" "[lo..<hi] \<noteq> []"
    using ne by (simp_all add: hd_upt last_upt of_nat_diff)
  have step: "time_loop events_t dt (i # is) (j_l, j_r) = time_loop events_t dt is (?l, ?r)"
    unfolding time_loop.simps Let_def win using hd_last by simp
  have "length ?l = n" "length ?r = n"
    using Cons.prems(1,2) by simp_all
  moreover have "\<forall>i\<in>set is. i < n \<and>
       length (filter (\<lambda>x. x < dt * int i + events_t ! 0) events_t)
         < length (filter (\<lambda>x. x < dt * int i + events_t ! 0 + dt) events_t)"
    using Cons.prems(3) by simp
  ultimately obtain j_l' j_r' where
    loop: "time_loop events_t dt is (?l, ?r) = Inr (j_l', j_r')"
    and lens: "length j_l' = n" "length j_r' = n"
    and l: "\<forall>k<n. j_l' ! k =
              (if k \<in> set is
               then int (length (filter (\<lambda>x. x < dt * int k + events_t ! 0) events_t))
               else ?l ! k)"
    and r: "\<forall>k<n. j_r' ! k =
              (if k \<in> set is
               then int (length (filter (\<lambda>x. x < dt * int k + events_t ! 0 + dt) events_t))
               else ?r ! k)"
    using Cons.IH [of ?l ?r] by blast
  note l = l [unfolded lo_def] and r = r [unfolded hi_def]
  have l': "\<forall>k<n. j_l' ! k =
              (if k \<in> set (i # is)
               then int (length (filter (\<lambda>x. x < dt * int k + events_t ! 0) events_t))
               else j_l ! k)"
    using l i Cons.prems(1) by (auto simp: nth_list_update)
  have r': "\<forall>k<n. j_r' ! k =
              (if k \<in> set (i # is)
               then int (length (filter (\<lambda>x. x < dt * int k + events_t ! 0 + dt) events_t))
               else j_r ! k)"
    using r i Cons.prems(2) by (auto simp: nth_list_update)
  from step loop lens l' r' show ?case by simp
qed

lemma window_nonempty_counts:
  fixes events_t :: "int list"
  assumes srt: "sorted events_t" and win: "window_nonempty events_t M i"
  shows "length (filter (\<lambda>x. x < (last events_t - events_t ! 0) div M * int i + events_t ! 0) events_t)
       < length (filter (\<lambda>x. x < (last events_t - events_t ! 0) div M * int i + events_t ! 0
                                   + (last events_t - events_t ! 0) div M) events_t)"
proof -
  define a where "a = (last events_t - events_t ! 0) div M * int i + events_t ! 0"
  define b where "b = a + (last events_t - events_t ! 0) div M"
  from win obtain v where "v \<in> set events_t" "a \<le> v" "v < b"
    by (auto simp: window_nonempty_def Let_def list_ex_iff a_def b_def)
  then obtain k where k: "k < length events_t" "a \<le> events_t ! k" "events_t ! k < b"
    by (auto simp: in_set_conv_nth)
  then have "k \<in> set (filter (\<lambda>k. a \<le> events_t ! k \<and> events_t ! k < b) [0..<length events_t])"
    by simp
  then have "k \<in> set [length (filter (\<lambda>x. x < a) events_t)..<length (filter (\<lambda>x. x < b) events_t)]"
    by (simp only: window_indices [OF srt])
  then show ?thesis
    unfolding a_def b_def by simp
qed

text \<open>
  Claim C4. For a non-decreasing timestamp array of length \<open>N \<ge> 1\<close> and a positive
  \<open>frames_num = M\<close> such that every window \<open>[t[0] + dt * i, t[0] + dt * (i + 1))\<close> with
  \<open>dt = (t[N - 1] - t[0]) // M\<close> and \<open>i < M\<close> holds at least one event, the split by time
  returns \<open>M\<close> ranges with \<open>j_l[0] = 0\<close>, \<open>j_r[M - 1] = N\<close> and \<open>j_r[i] = j_l[i + 1]\<close> for every
  \<open>i < M - 1\<close>.
\<close>

theorem time_split_contiguous:
  assumes srt: "sorted events_t" and N: "1 \<le> length events_t" and M: "1 \<le> M"
      and win: "\<forall>i<nat M. window_nonempty events_t M i"
  shows "\<exists>j_l j_r.
           cal_fixed_frames_number_segment_index events_t ''time'' M = Inr (j_l, j_r) \<and>
           length j_l = nat M \<and> length j_r = nat M \<and>
           j_l ! 0 = 0 \<and>
           j_r ! (nat M - 1) = int (length events_t) \<and>
           (\<forall>i. i + 1 < nat M \<longrightarrow> j_r ! i = j_l ! (i + 1))"
proof -
  define n where "n = nat M"
  define dt where "dt = (last events_t - events_t ! 0) div M"
  let ?c = "\<lambda>v. length (filter (\<lambda>x. x < v) events_t)"
  have n: "0 < n" using M by (simp add: n_def)
  have ne: "events_t \<noteq> []" using N by auto
  have idx: "\<forall>i\<in>set [0..<n]. i < n \<and> ?c (dt * int i + events_t ! 0) < ?c (dt * int i + events_t ! 0 + dt)"
  proof
    fix i assume "i \<in> set [0..<n]"
    then have i: "i < n" by simp
    with win have "window_nonempty events_t M i" by (simp add: n_def)
    from window_nonempty_counts [OF srt this] i
    show "i < n \<and> ?c (dt * int i + events_t ! 0) < ?c (dt * int i + events_t ! 0 + dt)"
      by (simp add: dt_def)
  qed
  from time_loop_nth [OF srt _ _ idx, of "replicate n 0" "replicate n 0"]
  obtain j_l j_r where
    loop: "time_loop events_t dt [0..<n] (replicate n 0, replicate n 0) = Inr (j_l, j_r)"
    and len: "length j_l = n" "length j_r = n"
    and l: "\<forall>i<n. j_l ! i = int (?c (dt * int i + events_t ! 0))"
    and r: "\<forall>i<n. j_r ! i = int (?c (dt * int i + events_t ! 0 + dt))"
    by auto
  let ?j_r = "j_r[n - 1 := int (length events_t)]"
  have j_r_ne: "j_r \<noteq> []" using len n by auto
  have call: "cal_fixed_frames_number_segment_index events_t ''time'' M = Inr (j_l, ?j_r)"
    using M ne loop len n j_r_ne
    by (simp add: cal_fixed_frames_number_segment_index_def set_last_def Let_def
        n_def [symmetric] dt_def [symmetric])
  have "\<forall>x\<in>set events_t. \<not> x < events_t ! 0"
  proof
    fix x assume "x \<in> set events_t"
    then obtain k where "k < length events_t" "x = events_t ! k"
      by (auto simp: in_set_conv_nth)
    then show "\<not> x < events_t ! 0"
      using sorted_nth_mono [OF srt, of 0 k] by simp
  qed
  then have "?c (events_t ! 0) = 0"
    by (simp add: filter_empty_conv)
  then have first: "j_l ! 0 = 0"
    using l n by simp
  have last: "?j_r ! (n - 1) = int (length events_t)"
    using len n by simp
  have next_eq: "?j_r ! i = j_l ! (i + 1)" if "i + 1 < n" for i
  proof -
    have eq: "dt * int i + events_t ! 0 + dt = dt * int (i + 1) + events_t ! 0"
      by (simp add: algebra_simps)
    have i: "i < n" using that by simp
    have "?j_r ! i = j_r ! i"
      using that by simp
    also have "\<dots> = int (?c (dt * int i + events_t ! 0 + dt))"
      by (rule r [rule_format, OF i])
    also have "\<dots> = int (?c (dt * int (i + 1) + events_t ! 0))"
      by (simp only: eq)
    also have "\<dots> = j_l ! (i + 1)"
      by (rule l [rule_format, OF that, symmetric])
    finally show ?thesis .
  qed
  have "cal_fixed_frames_number_segment_index events_t ''time'' M = Inr (j_l, ?j_r) \<and>
        length j_l = n \<and> length ?j_r = n \<and> j_l ! 0 = 0 \<and>
        ?j_r ! (n - 1) = int (length events_t) \<and>
        (\<forall>i. i + 1 < n \<longrightarrow> ?j_r ! i = j_l ! (i + 1))"
    using call len first last next_eq by simp
  then show ?thesis
    unfolding n_def [symmetric] by blast
qed

theorem time_split_contiguous_witness:
  "\<exists>j_l j_r.
     cal_fixed_frames_number_segment_index [0, 1, 2, 3, 4, 5, 6, 7, 8, 9, 10] ''time'' 3
       = Inr (j_l, j_r) \<and>
     j_l ! 0 = 0 \<and> j_r ! 2 = 11 \<and> j_r ! 0 = j_l ! 1 \<and> j_r ! 1 = j_l ! 2"
proof -
  let ?t = "[0, 1, 2, 3, 4, 5, 6, 7, 8, 9, 10] :: int list"
  have srt: "sorted ?t" by simp
  have N: "1 \<le> length ?t" by simp
  have M: "(1::int) \<le> 3" by simp
  have win: "\<forall>i<nat 3. window_nonempty ?t 3 i"
  proof (intro allI impI)
    fix i :: nat assume "i < nat 3"
    then consider "i = 0" | "i = 1" | "i = 2" by force
    then show "window_nonempty ?t 3 i"
      by cases (simp_all add: window_nonempty_def)
  qed
  from time_split_contiguous [OF srt N M win] obtain j_l j_r where
    call: "cal_fixed_frames_number_segment_index ?t ''time'' 3 = Inr (j_l, j_r)"
    and first: "j_l ! 0 = 0" and last: "j_r ! (nat 3 - 1) = int (length ?t)"
    and nxt: "\<forall>i. i + 1 < nat 3 \<longrightarrow> j_r ! i = j_l ! (i + 1)"
    by blast
  have "j_r ! 2 = 11"
    using last by (simp add: numeral_2_eq_2)
  moreover have "j_r ! 0 = j_l ! 1" "j_r ! 1 = j_l ! 2"
    using nxt [rule_format, of 0] nxt [rule_format, of 1] by (simp_all add: numeral_2_eq_2)
  ultimately show ?thesis using call first by blast
qed

end
